theory Spec2Isabelle
  imports Main "HOL-Library.List_Lexorder" "HOL-Library.Multiset"
begin

section \<open>Data model\<close>

text \<open>
  The processor works on networkx graphs. A graph is modelled by its node dictionary (an
  association list, in insertion order, from node index to the node's attribute dictionary),
  its edge list (in insertion order, each undirected edge once) and the graph-level
  \<open>name\<close> attribute. Node indices are natural numbers.

  An attribute dictionary is a record of optional fields: \<open>None\<close> is an absent key.
  Reading an absent key with \<open>d['key']\<close> raises \<open>KeyError\<close>, which the model returns
  as a value; \<open>d.get('key', default)\<close> falls back on the default.
  Reference modifications (PTMs) carry \<open>atomname\<close>, \<open>element\<close>, \<open>PTM_atom\<close> and
  possibly \<open>rename\<close>; molecule nodes extend this with \<open>resid\<close>, \<open>modifications\<close>
  and the provenance attribute \<open>graph\<close>.
\<close>

datatype py_error = KeyError

record 'a graph =
  nodes :: "(nat \<times> 'a) list"
  edges :: "(nat \<times> nat) list"
  name :: "string option"

record node =
  atomname :: "string option"
  element :: "string option"
  PTM_atom :: "bool option"
  rename :: "string option"

type_synonym ptm = "node graph"

text \<open>
  The provenance attribute holds \<open>molecule.subgraph([mol_idx]).copy()\<close>: a graph of one
  node with a copy of that node's attribute dictionary as it is at that moment, an earlier
  provenance attribute included. The copy is shallow, so its \<open>modifications\<close> entry is
  the very list object of the live node; it is therefore not a value of the snapshot and is
  read through the node.
\<close>

datatype snapshot = Snapshot
  (snap_idx: nat)
  (snap_atomname: "string option")
  (snap_element: "string option")
  (snap_PTM_atom: "bool option")
  (snap_rename: "string option")
  (snap_resid: "int option")
  (snap_graph: "snapshot option")

record mol_node = node +
  resid :: "int option"
  modifications :: "ptm list option"
  graph :: "snapshot option"

type_synonym molecule = "mol_node graph"

text \<open>A match is the dictionary \<open>{res_idx: ptm_idx}\<close> a graph matcher yields.\<close>

type_synonym match = "(nat \<times> nat) list"

text \<open>An island is the pair \<open>({ptm atom indices}, {anchor indices})\<close>.\<close>

type_synonym island = "nat set \<times> nat set"

subsection \<open>Graph access\<close>

definition node_idxs :: "'a graph \<Rightarrow> nat list" where
  "node_idxs G = map fst (nodes G)"

text \<open>\<open>G.nodes[n]\<close>\<close>

definition node_of :: "'a graph \<Rightarrow> nat \<Rightarrow> py_error + 'a" where
  "node_of G n = (case map_of (nodes G) n of None \<Rightarrow> Inl KeyError | Some d \<Rightarrow> Inr d)"

text \<open>\<open>len(G)\<close>\<close>

definition graph_len :: "'a graph \<Rightarrow> nat" where
  "graph_len G = length (nodes G)"

text \<open>
  The adjacency of node \<open>n\<close>, in the order in which its edges were added.
\<close>

fun neighbors_in :: "(nat \<times> nat) list \<Rightarrow> nat \<Rightarrow> nat list" where
  "neighbors_in [] n = []"
| "neighbors_in ((u, v) # es) n =
     (if u = n then v # neighbors_in es n
      else if v = n then u # neighbors_in es n
      else neighbors_in es n)"

definition neighbors :: "'a graph \<Rightarrow> nat \<Rightarrow> nat list" where
  "neighbors G n = neighbors_in (edges G) n"

text \<open>\<open>G.subgraph(n_idxs)\<close>: the nodes of \<open>n_idxs\<close> and the edges among them.\<close>

definition subgraph :: "'a graph \<Rightarrow> nat set \<Rightarrow> 'a graph" where
  "subgraph G n_idxs =
     G\<lparr>nodes := filter (\<lambda>(n, d). n \<in> n_idxs) (nodes G),
       edges := filter (\<lambda>(u, v). u \<in> n_idxs \<and> v \<in> n_idxs) (edges G)\<rparr>"

text \<open>\<open>G.nodes[n].get('PTM_atom', False)\<close> for a node \<open>n\<close> of \<open>G\<close>.\<close>

definition get_PTM_atom :: "('a node_scheme) \<Rightarrow> bool" where
  "get_PTM_atom d = (case PTM_atom d of None \<Rightarrow> False | Some b \<Rightarrow> b)"

definition is_PTM_atom :: "('a node_scheme) graph \<Rightarrow> nat \<Rightarrow> bool" where
  "is_PTM_atom G n = (case map_of (nodes G) n of None \<Rightarrow> False | Some d \<Rightarrow> get_PTM_atom d)"

section \<open>The reference modifications\<close>

text \<open>\<open>KNOWN_PTMS\<close>, as the module builds it.\<close>

definition n_term :: ptm where
  "n_term =
     \<lparr>nodes =
        [(0, \<lparr>atomname = Some ''N'', element = Some ''N'', PTM_atom = Some False, rename = None\<rparr>),
         (1, \<lparr>atomname = Some ''HN'', element = Some ''H'', PTM_atom = Some False,
              rename = Some ''HN1''\<rparr>),
         (2, \<lparr>atomname = Some ''HN2'', element = Some ''H'', PTM_atom = Some True, rename = None\<rparr>),
         (3, \<lparr>atomname = Some ''HN3'', element = Some ''H'', PTM_atom = Some True, rename = None\<rparr>)],
      edges = [(0, 1), (0, 2), (0, 3)],
      name = Some ''N-terminus''\<rparr>"

definition c_term :: ptm where
  "c_term =
     \<lparr>nodes =
        [(0, \<lparr>atomname = Some ''C'', element = Some ''C'', PTM_atom = Some False, rename = None\<rparr>),
         (1, \<lparr>atomname = Some ''O'', element = Some ''O'', PTM_atom = Some False,
              rename = Some ''OC1''\<rparr>),
         (2, \<lparr>atomname = Some ''OC2'', element = Some ''O'', PTM_atom = Some True, rename = None\<rparr>)],
      edges = [(0, 1), (0, 2)],
      name = Some ''C-terminus''\<rparr>"

definition KNOWN_PTMS :: "ptm list" where
  "KNOWN_PTMS = [n_term, c_term]"

section \<open>The compatibility predicate\<close>

text \<open>
  \<open>PTMGraphMatcher.semantic_feasibility\<close>, on the two attribute dictionaries
  (\<open>node1\<close> of the found residue, \<open>node2\<close> of the PTM reference) ...
\<close>

definition node_compat :: "('a node_scheme) \<Rightarrow> ('b node_scheme) \<Rightarrow> py_error + bool" where
  "node_compat node1 node2 =
     (case PTM_atom node2 of
        None \<Rightarrow> Inl KeyError
      | Some flag2 \<Rightarrow>
          if get_PTM_atom node1 = flag2 then
            if flag2 then
              (case element node1 of
                 None \<Rightarrow> Inl KeyError
               | Some e1 \<Rightarrow>
                   (case element node2 of None \<Rightarrow> Inl KeyError | Some e2 \<Rightarrow> Inr (e1 = e2)))
            else
              (case atomname node1 of
                 None \<Rightarrow> Inl KeyError
               | Some a1 \<Rightarrow>
                   (case atomname node2 of None \<Rightarrow> Inl KeyError | Some a2 \<Rightarrow> Inr (a1 = a2)))
          else Inr False)"

text \<open>... and on the node indices, as the matcher calls it.\<close>

definition semantic_feasibility ::
  "('a node_scheme) graph \<Rightarrow> ('b node_scheme) graph \<Rightarrow> nat \<Rightarrow> nat \<Rightarrow> py_error + bool" where
  "semantic_feasibility G1 G2 node1 node2 =
     (case node_of G1 node1 of
        Inl e \<Rightarrow> Inl e
      | Inr d1 \<Rightarrow>
          (case node_of G2 node2 of
             Inl e \<Rightarrow> Inl e
           | Inr d2 \<Rightarrow> node_compat d1 d2))"

section \<open>Breadth-first traversal\<close>

text \<open>
  \<open>nx.bfs_successors\<close> belongs to networkx. It is modelled after its implementation:
  \<open>generic_bfs_edges\<close> keeps a queue of (parent, iterator over the parent's adjacency),
  starting with the source, and yields the edge (parent, child) for every child not
  visited before; \<open>bfs_successors\<close> groups consecutive edges of the same parent and
  yields (parent, children). A node without children in the breadth-first tree is
  therefore never yielded as a parent, except the source when the tree has no edge at all.
\<close>

definition universe :: "'a graph \<Rightarrow> nat set" where
  "universe G = fst ` set (edges G) \<union> snd ` set (edges G)"

definition pending :: "(nat \<times> nat list) list \<Rightarrow> nat set" where
  "pending queue = (\<Union>(p, cs) \<in> set queue. set cs)"

definition queue_size :: "(nat \<times> nat list) list \<Rightarrow> nat" where
  "queue_size queue = sum_list (map (\<lambda>(p, cs). Suc (length cs)) queue)"

lemma neighbors_in_subset: "set (neighbors_in es n) \<subseteq> fst ` set es \<union> snd ` set es"
  by (induction es n rule: neighbors_in.induct) auto

lemma neighbors_universe: "set (neighbors G n) \<subseteq> universe G"
  using neighbors_in_subset by (simp add: neighbors_def universe_def)

lemma finite_pending: "finite (pending queue)"
  by (auto simp: pending_def)

lemma finite_universe: "finite (universe G)"
  by (simp add: universe_def)

function bfs_edges_loop ::
  "'a graph \<Rightarrow> nat set \<Rightarrow> (nat \<times> nat list) list \<Rightarrow> (nat \<times> nat) list" where
  "bfs_edges_loop G visited [] = []"
| "bfs_edges_loop G visited ((parent, []) # queue) = bfs_edges_loop G visited queue"
| "bfs_edges_loop G visited ((parent, child # children) # queue) =
     (if child \<in> visited then bfs_edges_loop G visited ((parent, children) # queue)
      else (parent, child)
             # bfs_edges_loop G (insert child visited)
                 (((parent, children) # queue) @ [(child, neighbors G child)]))"
  by pat_completeness auto
termination
proof (relation "(\<lambda>(G, visited, queue). card ((universe G \<union> pending queue) - visited))
                   <*mlex*> measure (\<lambda>(G, visited, queue). queue_size queue)", goal_cases)
  case 1
  show ?case by (simp add: wf_mlex)
next
  case (2 G visited parent queue)
  show ?case
    by (rule mlex_leq) (simp_all add: pending_def queue_size_def)
next
  case (3 G visited parent child children queue)
  have "finite ((universe G \<union> pending ((parent, child # children) # queue)) - visited)"
    by (simp add: finite_universe finite_pending)
  moreover have "(universe G \<union> pending ((parent, children) # queue)) - visited
      \<subseteq> (universe G \<union> pending ((parent, child # children) # queue)) - visited"
    by (auto simp: pending_def)
  ultimately have "card ((universe G \<union> pending ((parent, children) # queue)) - visited)
      \<le> card ((universe G \<union> pending ((parent, child # children) # queue)) - visited)"
    by (rule card_mono)
  then show ?case
    by (intro mlex_leq) (simp_all add: queue_size_def)
next
  case (4 G visited parent child children queue)
  have fin: "finite ((universe G \<union> pending ((parent, child # children) # queue)) - visited)"
    by (simp add: finite_universe finite_pending)
  have "(universe G \<union> pending (((parent, children) # queue) @ [(child, neighbors G child)]))
          - insert child visited
        \<subset> (universe G \<union> pending ((parent, child # children) # queue)) - visited"
    using 4 neighbors_universe [of G child] by (auto simp: pending_def)
  then show ?case
    by (intro mlex_less) (simp add: psubset_card_mono [OF fin])
qed

definition bfs_edges :: "'a graph \<Rightarrow> nat \<Rightarrow> (nat \<times> nat) list" where
  "bfs_edges G source = bfs_edges_loop G {source} [(source, neighbors G source)]"

fun bfs_successors_loop ::
  "nat \<Rightarrow> nat list \<Rightarrow> (nat \<times> nat) list \<Rightarrow> (nat \<times> nat list) list" where
  "bfs_successors_loop parent children [] = [(parent, children)]"
| "bfs_successors_loop parent children ((p, c) # es) =
     (if p = parent then bfs_successors_loop parent (children @ [c]) es
      else (parent, children) # bfs_successors_loop p [c] es)"

definition bfs_successors :: "'a graph \<Rightarrow> nat \<Rightarrow> (nat \<times> nat list) list" where
  "bfs_successors G source = bfs_successors_loop source [] (bfs_edges G source)"

section \<open>Locating the islands of PTM atoms\<close>

text \<open>
  The \<open>for orig, succ in nx.bfs_successors(molecule, first)\<close> loop of
  \<open>find_PTM_atoms\<close>, over the pairs the generator yields, with the sets \<open>to_see\<close>,
  \<open>atoms\<close> and \<open>anchors\<close> as loop state. \<open>to_see.remove(orig)\<close> raises
  \<open>KeyError\<close> when \<open>orig\<close> is not in \<open>to_see\<close>. The loop ends at the \<open>break\<close> or when
  the generator is exhausted.
\<close>

fun traverse ::
  "nat set \<Rightarrow> (nat \<times> nat list) list \<Rightarrow> nat set \<Rightarrow> nat set \<Rightarrow> nat set
     \<Rightarrow> py_error + island" where
  "traverse extra_atoms [] to_see atoms anchors = Inr (atoms, anchors)"
| "traverse extra_atoms ((orig, succ) # rest) to_see atoms anchors =
     (if orig \<notin> to_see then Inl KeyError
      else if orig \<in> extra_atoms then
        (if (to_see - {orig}) \<union> set succ = {} then Inr (insert orig atoms, anchors)
         else traverse extra_atoms rest ((to_see - {orig}) \<union> set succ) (insert orig atoms) anchors)
      else
        (if to_see - {orig} = {} then Inr (atoms, insert orig anchors)
         else traverse extra_atoms rest (to_see - {orig}) atoms (insert orig anchors)))"

text \<open>
  The \<open>while extra_atoms\<close> loop. \<open>next(iter(extra_atoms))\<close> takes some element of the set,
  which one is up to the set's internal order: the choice is the parameter \<open>pick\<close>. The
  loop is a partial function; \<open>None\<close> stands for a loop that never ends.
\<close>

partial_function (option) find_PTM_atoms_loop ::
  "(nat set \<Rightarrow> nat) \<Rightarrow> ('a node_scheme) graph \<Rightarrow> nat set \<Rightarrow> island list
     \<Rightarrow> (py_error + island list) option" where
  "find_PTM_atoms_loop pick molecule extra_atoms PTMs =
     (if extra_atoms = {} then Some (Inr PTMs)
      else
        (case traverse extra_atoms (bfs_successors molecule (pick extra_atoms))
                {pick extra_atoms} {} {} of
           Inl e \<Rightarrow> Some (Inl e)
         | Inr (atoms, anchors) \<Rightarrow>
             find_PTM_atoms_loop pick molecule (extra_atoms - atoms) (PTMs @ [(atoms, anchors)])))"

declare find_PTM_atoms_loop.simps [code]

definition PTM_atom_set :: "('a node_scheme) graph \<Rightarrow> nat set" where
  "PTM_atom_set molecule = set (filter (is_PTM_atom molecule) (node_idxs molecule))"

definition find_PTM_atoms ::
  "(nat set \<Rightarrow> nat) \<Rightarrow> ('a node_scheme) graph \<Rightarrow> (py_error + island list) option" where
  "find_PTM_atoms pick molecule = find_PTM_atoms_loop pick molecule (PTM_atom_set molecule) []"

section \<open>Identifying the modifications of a residue group\<close>

text \<open>
  \<open>identify_ptms\<close> takes \<open>options\<close>, a sequence of pairs of a reference modification
  and its \<open>PTMGraphMatcher\<close> on the residue. The matcher is networkx's; the function
  only uses \<open>list(matcher.subgraph_isomorphisms_iter())\<close>, which is the same list at every
  call, so an option is modelled as the modification with that list of matches.
\<close>

type_synonym option_ptm = "ptm \<times> match list"

definition match_keys :: "match \<Rightarrow> nat set" where
  "match_keys match = set (map fst match)"

text \<open>The atoms still to be covered: the union of the first components of the islands.\<close>

definition remaining :: "island list \<Rightarrow> nat set" where
  "remaining residue_ptms = \<Union> (set (map fst residue_ptms))"

text \<open>The non-PTM atoms of the residue.\<close>

definition non_PTM_atoms :: "('a node_scheme) graph \<Rightarrow> nat set" where
  "non_PTM_atoms residue = set (filter (\<lambda>n_idx. \<not> is_PTM_atom residue n_idx) (node_idxs residue))"

definition available_atoms :: "('a node_scheme) graph \<Rightarrow> island list \<Rightarrow> nat set" where
  "available_atoms residue residue_ptms = non_PTM_atoms residue \<union> remaining residue_ptms"

text \<open>
  The two nested \<open>for\<close> loops up to the \<open>return\<close>: the first option, with its index, that
  has a match within the available atoms, and the first such match of that option.
\<close>

fun first_match :: "nat set \<Rightarrow> option_ptm list \<Rightarrow> nat \<Rightarrow> (nat \<times> ptm \<times> match) option" where
  "first_match available [] idx = None"
| "first_match available ((ptm, matches) # options) idx =
     (case find (\<lambda>match. match_keys match \<subseteq> available) matches of
        Some match \<Rightarrow> Some (idx, ptm, match)
      | None \<Rightarrow> first_match available options (Suc idx))"

definition new_res_ptms :: "island list \<Rightarrow> nat set \<Rightarrow> island list" where
  "new_res_ptms residue_ptms matching =
     map (\<lambda>res_ptm. (fst res_ptm - matching, snd res_ptm)) residue_ptms"

text \<open>
  The recursion need not end (a match without remaining atoms consumes nothing), so the
  function is partial: \<open>None\<close> is a recursion that never returns.
\<close>

partial_function (option) identify_ptms ::
  "('a node_scheme) graph \<Rightarrow> island list \<Rightarrow> option_ptm list
     \<Rightarrow> (py_error + (ptm \<times> match) list) option" where
  "identify_ptms residue residue_ptms options =
     (if \<not> list_ex (\<lambda>res_ptm. fst res_ptm \<noteq> {}) residue_ptms then Some (Inr [])
      else
        (case first_match (available_atoms residue residue_ptms) options 0 of
           None \<Rightarrow> Some (Inl KeyError)
         | Some (idx, ptm, match) \<Rightarrow>
             Option.bind
               (identify_ptms residue (new_res_ptms residue_ptms (match_keys match))
                  (drop idx options))
               (\<lambda>r. case r of
                  Inl e \<Rightarrow> Some (Inl e)
                | Inr identified \<Rightarrow> Some (Inr ((ptm, match) # identified)))))"

declare identify_ptms.simps [code]

text \<open>
  \<open>allowed_ptms\<close> and the sorting of its result by the number of nodes of the
  modification (\<open>sorted\<close> is stable). The parameter \<open>subgraph_isomorphisms_iter\<close> is the
  enumeration of the \<open>PTMGraphMatcher\<close> of a residue and a modification;
  \<open>subgraph_is_isomorphic\<close> is true when that enumeration yields a match.
\<close>

definition subgraph_is_isomorphic ::
  "(('a node_scheme) graph \<Rightarrow> ptm \<Rightarrow> match list) \<Rightarrow> ('a node_scheme) graph \<Rightarrow> ptm \<Rightarrow> bool" where
  "subgraph_is_isomorphic subgraph_isomorphisms_iter residue ptm =
     (subgraph_isomorphisms_iter residue ptm \<noteq> [])"

definition allowed_ptms ::
  "(('a node_scheme) graph \<Rightarrow> ptm \<Rightarrow> match list) \<Rightarrow> ('a node_scheme) graph \<Rightarrow> island list
     \<Rightarrow> ptm list \<Rightarrow> option_ptm list" where
  "allowed_ptms subgraph_isomorphisms_iter residue res_ptms known_ptms =
     map (\<lambda>ptm. (ptm, subgraph_isomorphisms_iter residue ptm))
       (filter (subgraph_is_isomorphic subgraph_isomorphisms_iter residue) known_ptms)"

definition sorted_options ::
  "(('a node_scheme) graph \<Rightarrow> ptm \<Rightarrow> match list) \<Rightarrow> ('a node_scheme) graph \<Rightarrow> island list
     \<Rightarrow> ptm list \<Rightarrow> option_ptm list" where
  "sorted_options subgraph_isomorphisms_iter residue res_ptms known_ptms =
     sort_key (\<lambda>opt. graph_len (fst opt))
       (allowed_ptms subgraph_isomorphisms_iter residue res_ptms known_ptms)"

subsection \<open>Notions for the properties of the search\<close>

text \<open>
  The successful runs of \<open>identify_ptms\<close> as an inductive relation: the base case, and
  the acceptance of the first available match followed by the recursive call.
\<close>

inductive identifies ::
  "('a node_scheme) graph \<Rightarrow> island list \<Rightarrow> option_ptm list \<Rightarrow> (ptm \<times> match) list \<Rightarrow> bool"
  for residue :: "('a node_scheme) graph" where
  base: "\<not> list_ex (\<lambda>res_ptm. fst res_ptm \<noteq> {}) residue_ptms
           \<Longrightarrow> identifies residue residue_ptms options []"
| step: "list_ex (\<lambda>res_ptm. fst res_ptm \<noteq> {}) residue_ptms
           \<Longrightarrow> first_match (available_atoms residue residue_ptms) options 0 = Some (idx, ptm, match)
           \<Longrightarrow> identifies residue (new_res_ptms residue_ptms (match_keys match)) (drop idx options)
                 identified
           \<Longrightarrow> identifies residue residue_ptms options ((ptm, match) # identified)"

text \<open>
  \<open>idxs\<close> gives, for every identified modification, a position in \<open>options\<close> that holds
  that modification and the accepted match.
\<close>

definition chosen_at :: "option_ptm list \<Rightarrow> (ptm \<times> match) list \<Rightarrow> nat list \<Rightarrow> bool" where
  "chosen_at options identified idxs \<longleftrightarrow>
     length idxs = length identified \<and>
     (\<forall>k < length identified.
        idxs ! k < length options \<and>
        fst (options ! (idxs ! k)) = fst (identified ! k) \<and>
        snd (identified ! k) \<in> set (snd (options ! (idxs ! k))))"

text \<open>The atoms of a match that are not non-PTM atoms of the residue.\<close>

definition covered :: "('a node_scheme) graph \<Rightarrow> match \<Rightarrow> nat set" where
  "covered residue match = match_keys match - non_PTM_atoms residue"

fun pairwise_disjoint :: "'a set list \<Rightarrow> bool" where
  "pairwise_disjoint [] = True"
| "pairwise_disjoint (A # As) = (list_all (\<lambda>B. A \<inter> B = {}) As \<and> pairwise_disjoint As)"

text \<open>
  A dead end of the search: atoms remain and no option has a match within the available
  atoms, now or after accepting the first available match.
\<close>

inductive dead_end ::
  "('a node_scheme) graph \<Rightarrow> island list \<Rightarrow> option_ptm list \<Rightarrow> bool"
  for residue :: "('a node_scheme) graph" where
  exhausted:
    "list_ex (\<lambda>res_ptm. fst res_ptm \<noteq> {}) residue_ptms
       \<Longrightarrow> \<not> list_ex (\<lambda>opt. list_ex (\<lambda>match. match_keys match
                          \<subseteq> available_atoms residue residue_ptms) (snd opt)) options
       \<Longrightarrow> dead_end residue residue_ptms options"
| accepted:
    "list_ex (\<lambda>res_ptm. fst res_ptm \<noteq> {}) residue_ptms
       \<Longrightarrow> first_match (available_atoms residue residue_ptms) options 0 = Some (idx, ptm, match)
       \<Longrightarrow> dead_end residue (new_res_ptms residue_ptms (match_keys match)) (drop idx options)
       \<Longrightarrow> dead_end residue residue_ptms options"

text \<open>
  A combination of matches of the options that exactly covers the atoms of the islands.
\<close>

definition exact_cover ::
  "('a node_scheme) graph \<Rightarrow> island list \<Rightarrow> option_ptm list \<Rightarrow> (ptm \<times> match) list \<Rightarrow> bool" where
  "exact_cover residue residue_ptms options identified \<longleftrightarrow>
     list_all (\<lambda>(ptm, match). list_ex (\<lambda>opt. fst opt = ptm \<and> match \<in> set (snd opt)) options)
       identified
     \<and> \<Union> (set (map (\<lambda>x. covered residue (snd x)) identified)) = remaining residue_ptms
     \<and> pairwise_disjoint (map (\<lambda>x. covered residue (snd x)) identified)"

section \<open>Applying the identified modifications\<close>

text \<open>Writing the attribute dictionary of one node.\<close>

definition update_node :: "'a graph \<Rightarrow> nat \<Rightarrow> ('a \<Rightarrow> 'a) \<Rightarrow> 'a graph" where
  "update_node G n_idx f =
     G\<lparr>nodes := map (\<lambda>(n, d). if n = n_idx then (n, f d) else (n, d)) (nodes G)\<rparr>"

text \<open>\<open>molecule.subgraph([mol_idx]).copy()\<close>, for a node with attributes \<open>d\<close>.\<close>

definition snapshot_of :: "nat \<Rightarrow> mol_node \<Rightarrow> snapshot" where
  "snapshot_of mol_idx d =
     Snapshot mol_idx (atomname d) (element d) (PTM_atom d) (rename d) (resid d) (graph d)"

text \<open>
  The body of \<open>for mol_idx, ptm_idx in match.items()\<close> in \<open>fix_ptm\<close>. The new name is
  \<open>ptm_node.get('rename', ptm_node['atomname'])\<close>, whose default is evaluated first, and
  the debug output reads \<open>mol_node['atomname']\<close>: both raise \<open>KeyError\<close> on an absent key.
\<close>

definition rename_atom :: "ptm \<Rightarrow> nat \<Rightarrow> nat \<Rightarrow> molecule \<Rightarrow> py_error + molecule" where
  "rename_atom ptm mol_idx ptm_idx molecule =
     (case node_of ptm ptm_idx of
        Inl e \<Rightarrow> Inl e
      | Inr ptm_node \<Rightarrow>
          (case node_of molecule mol_idx of
             Inl e \<Rightarrow> Inl e
           | Inr mol_node \<Rightarrow>
               (case PTM_atom ptm_node of
                  None \<Rightarrow> Inl KeyError
                | Some flag \<Rightarrow>
                    if flag \<or> rename ptm_node \<noteq> None then
                      (case atomname ptm_node of
                         None \<Rightarrow> Inl KeyError
                       | Some ptm_name \<Rightarrow>
                           (case atomname mol_node of
                              None \<Rightarrow> Inl KeyError
                            | Some old_name \<Rightarrow>
                                Inr (update_node molecule mol_idx
                                  (\<lambda>d. d\<lparr>graph := Some (snapshot_of mol_idx mol_node),
                                         atomname :=
                                           Some (case rename ptm_node of
                                                   None \<Rightarrow> ptm_name
                                                 | Some new_name \<Rightarrow> new_name)\<rparr>))))
                    else Inr molecule)))"

fun rename_atoms :: "ptm \<Rightarrow> match \<Rightarrow> molecule \<Rightarrow> py_error + molecule" where
  "rename_atoms ptm [] molecule = Inr molecule"
| "rename_atoms ptm ((mol_idx, ptm_idx) # items) molecule =
     (case rename_atom ptm mol_idx ptm_idx molecule of
        Inl e \<Rightarrow> Inl e
      | Inr molecule' \<Rightarrow> rename_atoms ptm items molecule')"

text \<open>
  \<open>for n_idx in n_idxs\<close>: every node of the residue group gets the modification appended
  to its \<open>modifications\<close> list, which is created when absent. Each node has a list of
  its own, so the order in which the set \<open>n_idxs\<close> is iterated does not matter.
\<close>

definition get_modifications :: "mol_node \<Rightarrow> ptm list" where
  "get_modifications d = (case modifications d of None \<Rightarrow> [] | Some ms \<Rightarrow> ms)"

definition append_modification :: "ptm \<Rightarrow> nat set \<Rightarrow> molecule \<Rightarrow> molecule" where
  "append_modification ptm n_idxs molecule =
     molecule\<lparr>nodes :=
       map (\<lambda>(n, d). if n \<in> n_idxs then (n, d\<lparr>modifications := Some (get_modifications d @ [ptm])\<rparr>)
                      else (n, d))
         (nodes molecule)\<rparr>"

text \<open>\<open>for ptm, match in identified\<close>\<close>

fun apply_identified :: "(ptm \<times> match) list \<Rightarrow> nat set \<Rightarrow> molecule \<Rightarrow> py_error + molecule" where
  "apply_identified [] n_idxs molecule = Inr molecule"
| "apply_identified ((ptm, match) # identified) n_idxs molecule =
     (case rename_atoms ptm match molecule of
        Inl e \<Rightarrow> Inl e
      | Inr molecule' \<Rightarrow> apply_identified identified n_idxs (append_modification ptm n_idxs molecule'))"

text \<open>What one step of the renaming loop does to the node dictionary.\<close>

definition renamed :: "nat \<Rightarrow> node \<Rightarrow> mol_node \<Rightarrow> mol_node" where
  "renamed mol_idx ptm_node mol_node =
     (if PTM_atom ptm_node = Some True \<or> rename ptm_node \<noteq> None
      then mol_node\<lparr>graph := Some (snapshot_of mol_idx mol_node),
                    atomname := (case rename ptm_node of
                                   None \<Rightarrow> atomname ptm_node
                                 | Some new_name \<Rightarrow> Some new_name)\<rparr>
      else mol_node)"

text \<open>The whole renaming loop of one match, on the node dictionary.\<close>

definition renamed_by :: "ptm \<Rightarrow> match \<Rightarrow> nat \<Rightarrow> mol_node \<Rightarrow> mol_node" where
  "renamed_by ptm match k d =
     (case map_of match k of
        None \<Rightarrow> d
      | Some ptm_idx \<Rightarrow>
          (case node_of ptm ptm_idx of
             Inl e \<Rightarrow> d
           | Inr ptm_node \<Rightarrow> renamed k ptm_node d))"

section \<open>The processor\<close>

text \<open>
  \<open>key_func\<close>: the sorted residue identifiers of the anchors of an island, one entry
  per anchor.
\<close>

fun resids_of :: "molecule \<Rightarrow> nat list \<Rightarrow> py_error + int list" where
  "resids_of molecule [] = Inr []"
| "resids_of molecule (idx # idxs) =
     (case node_of molecule idx of
        Inl e \<Rightarrow> Inl e
      | Inr d \<Rightarrow>
          (case resid d of
             None \<Rightarrow> Inl KeyError
           | Some r \<Rightarrow>
               (case resids_of molecule idxs of
                  Inl e \<Rightarrow> Inl e
                | Inr rs \<Rightarrow> Inr (r # rs))))"

definition key_func :: "molecule \<Rightarrow> island \<Rightarrow> py_error + int list" where
  "key_func molecule ptm_atoms =
     (case resids_of molecule (sorted_list_of_set (snd ptm_atoms)) of
        Inl e \<Rightarrow> Inl e
      | Inr rs \<Rightarrow> Inr (sort rs))"

fun with_keys :: "molecule \<Rightarrow> island list \<Rightarrow> py_error + (int list \<times> island) list" where
  "with_keys molecule [] = Inr []"
| "with_keys molecule (ptm_atoms # rest) =
     (case key_func molecule ptm_atoms of
        Inl e \<Rightarrow> Inl e
      | Inr k \<Rightarrow>
          (case with_keys molecule rest of
             Inl e \<Rightarrow> Inl e
           | Inr kvs \<Rightarrow> Inr ((k, ptm_atoms) # kvs)))"

text \<open>\<open>itertools.groupby\<close>: runs of consecutive elements with equal keys.\<close>

fun groupby :: "('k \<times> 'v) list \<Rightarrow> ('k \<times> 'v list) list" where
  "groupby [] = []"
| "groupby ((k, v) # kvs) =
     (case groupby kvs of
        [] \<Rightarrow> [(k, [v])]
      | (k', vs) # groups \<Rightarrow>
          if k = k' then (k, v # vs) # groups else (k, [v]) # (k', vs) # groups)"

text \<open>\<open>resid_to_idxs\<close> and the node set \<open>n_idxs\<close> of a group of residues.\<close>

definition resid_to_idxs :: "molecule \<Rightarrow> int \<Rightarrow> nat list" where
  "resid_to_idxs molecule r =
     map fst (filter (\<lambda>(n, d). resid d = Some r) (nodes molecule))"

definition group_idxs :: "molecule \<Rightarrow> int list \<Rightarrow> nat set" where
  "group_idxs molecule resids = set (concat (map (resid_to_idxs molecule) resids))"

text \<open>
  The loop over the groups. The residue is a view on the molecule, so each group is
  matched against the molecule as the groups before it left it.
\<close>

fun fix_groups ::
  "(molecule \<Rightarrow> ptm \<Rightarrow> match list) \<Rightarrow> (int list \<times> island list) list \<Rightarrow> molecule
     \<Rightarrow> (py_error + molecule) option" where
  "fix_groups subgraph_isomorphisms_iter [] molecule = Some (Inr molecule)"
| "fix_groups subgraph_isomorphisms_iter ((resids, res_ptms) # groups) molecule =
     (case identify_ptms (subgraph molecule (group_idxs molecule resids)) res_ptms
             (sorted_options subgraph_isomorphisms_iter
                (subgraph molecule (group_idxs molecule resids)) res_ptms KNOWN_PTMS) of
        None \<Rightarrow> None
      | Some (Inl e) \<Rightarrow> Some (Inl e)
      | Some (Inr identified) \<Rightarrow>
          (case apply_identified identified (group_idxs molecule resids) molecule of
             Inl e \<Rightarrow> Some (Inl e)
           | Inr molecule' \<Rightarrow> fix_groups subgraph_isomorphisms_iter groups molecule'))"

definition fix_ptm ::
  "(nat set \<Rightarrow> nat) \<Rightarrow> (molecule \<Rightarrow> ptm \<Rightarrow> match list) \<Rightarrow> molecule
     \<Rightarrow> (py_error + molecule) option" where
  "fix_ptm pick subgraph_isomorphisms_iter molecule =
     (case find_PTM_atoms pick molecule of
        None \<Rightarrow> None
      | Some (Inl e) \<Rightarrow> Some (Inl e)
      | Some (Inr PTM_atoms) \<Rightarrow>
          (case with_keys molecule PTM_atoms of
             Inl e \<Rightarrow> Some (Inl e)
           | Inr keyed \<Rightarrow>
               if list_ex (\<lambda>(n, d). resid d = None) (nodes molecule) then Some (Inl KeyError)
               else fix_groups subgraph_isomorphisms_iter (groupby (sort_key fst keyed)) molecule))"

section \<open>The symmetry-aware matcher\<close>

text \<open>
  Modelled from the spec: the module \<open>vermouth.ismags\<close> with \<open>find_subgraphs\<close> is not
  among the sources, only its tests are. The definitions of this section follow the
  contract and the search strategy of the specification: a mapping pairs every pattern
  node with a host node, is injective, maps every pattern edge to a host edge, and the
  compatibility predicate \<open>node_match\<close> holds on every mapped pair. Mappings are written
  as the tests read them, as pairs (host node, pattern node).
\<close>

definition has_edge :: "'a graph \<Rightarrow> nat \<Rightarrow> nat \<Rightarrow> bool" where
  "has_edge G u v \<longleftrightarrow> (u, v) \<in> set (edges G) \<or> (v, u) \<in> set (edges G)"

definition compatible :: "('a \<Rightarrow> 'b \<Rightarrow> bool) \<Rightarrow> 'a graph \<Rightarrow> 'b graph \<Rightarrow> nat \<Rightarrow> nat \<Rightarrow> bool" where
  "compatible node_match host pattern h p =
     (case map_of (nodes host) h of
        None \<Rightarrow> False
      | Some host_node \<Rightarrow>
          (case map_of (nodes pattern) p of
             None \<Rightarrow> False
           | Some pattern_node \<Rightarrow> node_match host_node pattern_node))"

text \<open>
  Modelled from the spec: the host candidates of a pattern node, and their refinement
  when the pattern node \<open>p\<close> has been assigned the host node \<open>h\<close>: \<open>h\<close> is taken, and
  the neighbours of \<open>p\<close> can only go to neighbours of \<open>h\<close>.
\<close>

definition candidates :: "('a \<Rightarrow> 'b \<Rightarrow> bool) \<Rightarrow> 'a graph \<Rightarrow> 'b graph \<Rightarrow> nat \<Rightarrow> nat list" where
  "candidates node_match host pattern p =
     filter (\<lambda>h. compatible node_match host pattern h p \<and> (has_edge pattern p p \<longrightarrow> has_edge host h h))
       (node_idxs host)"

definition refine ::
  "'a graph \<Rightarrow> 'b graph \<Rightarrow> nat \<Rightarrow> nat \<Rightarrow> (nat \<times> nat list) list \<Rightarrow> (nat \<times> nat list) list" where
  "refine host pattern p h todo =
     map (\<lambda>(q, cs). (q, filter (\<lambda>h'. h' \<noteq> h \<and> (has_edge pattern p q \<longrightarrow> has_edge host h h')) cs))
       todo"

text \<open>
  Modelled from the spec: pattern nodes are assigned in most-constrained-first order, the
  node with the fewest candidates first.
\<close>

definition most_constrained_first :: "(nat \<times> nat list) list \<Rightarrow> (nat \<times> nat list) list" where
  "most_constrained_first todo = sort_key (\<lambda>(q, cs). length cs) todo"

lemma length_refine: "length (refine host pattern p h todo) = length todo"
  by (simp add: refine_def)

lemma length_most_constrained_first: "length (most_constrained_first todo) = length todo"
  by (simp add: most_constrained_first_def)

text \<open>
  Modelled from the spec: the backtracking search. \<open>todo\<close> holds the pattern nodes still
  to assign with their candidates, \<open>mapping\<close> the pairs assigned so far.
\<close>

function search ::
  "'a graph \<Rightarrow> 'b graph \<Rightarrow> (nat \<times> nat list) list \<Rightarrow> (nat \<times> nat) list \<Rightarrow> (nat \<times> nat) list list" where
  "search host pattern [] mapping = [mapping]"
| "search host pattern ((p, cs) # todo) mapping =
     concat (map (\<lambda>h. search host pattern
                         (most_constrained_first (refine host pattern p h todo))
                         ((h, p) # mapping))
               cs)"
  by pat_completeness auto
termination
  by (relation "measure (\<lambda>(host, pattern, todo, mapping). length todo)")
     (simp_all add: length_refine length_most_constrained_first)

definition initial_todo :: "('a \<Rightarrow> 'b \<Rightarrow> bool) \<Rightarrow> 'a graph \<Rightarrow> 'b graph \<Rightarrow> (nat \<times> nat list) list" where
  "initial_todo node_match host pattern =
     map (\<lambda>p. (p, candidates node_match host pattern p)) (node_idxs pattern)"

text \<open>
  Modelled from the spec: the enumeration of all valid mappings, \<open>find_subgraphs\<close> with
  \<open>symmetry=False\<close>.
\<close>

definition find_all_subgraphs ::
  "('a \<Rightarrow> 'b \<Rightarrow> bool) \<Rightarrow> 'a graph \<Rightarrow> 'b graph \<Rightarrow> (nat \<times> nat) list list" where
  "find_all_subgraphs node_match host pattern =
     search host pattern (most_constrained_first (initial_todo node_match host pattern)) []"

text \<open>
  Modelled from the spec: the symmetry reduction. The automorphisms of the pattern are its
  valid mappings onto itself; \<open>compose m \<sigma>\<close> is the mapping \<open>m\<close> after the automorphism
  \<open>\<sigma>\<close>; \<open>images\<close> lists the host nodes of a mapping in the order of the pattern nodes.
  The ordering constraints keep the mapping whose images are least among the mappings
  that differ from it by an automorphism.
\<close>

definition compose :: "(nat \<times> nat) list \<Rightarrow> (nat \<times> nat) list \<Rightarrow> (nat \<times> nat) list" where
  "compose m \<sigma> = concat (map (\<lambda>(r, q). map (\<lambda>(h, r'). (h, q)) (filter (\<lambda>(h, r'). r' = r) m)) \<sigma>)"

definition images :: "nat list \<Rightarrow> (nat \<times> nat) list \<Rightarrow> nat list list" where
  "images ps m = map (\<lambda>q. sort (remdups (map fst (filter (\<lambda>(h, q'). q' = q) m)))) ps"

definition automorphisms :: "('a \<Rightarrow> 'a \<Rightarrow> bool) \<Rightarrow> 'a graph \<Rightarrow> (nat \<times> nat) list list" where
  "automorphisms node_match pattern = find_all_subgraphs node_match pattern pattern"

definition canonical :: "('a \<Rightarrow> 'a \<Rightarrow> bool) \<Rightarrow> 'a graph \<Rightarrow> (nat \<times> nat) list \<Rightarrow> bool" where
  "canonical node_match pattern m \<longleftrightarrow>
     list_all (\<lambda>\<sigma>. images (node_idxs pattern) m \<le> images (node_idxs pattern) (compose m \<sigma>))
       (automorphisms node_match pattern)"

definition find_subgraphs ::
  "('a \<Rightarrow> 'a \<Rightarrow> bool) \<Rightarrow> 'a graph \<Rightarrow> 'a graph \<Rightarrow> bool \<Rightarrow> (nat \<times> nat) list list" where
  "find_subgraphs node_match host pattern symmetry =
     (if symmetry then filter (canonical node_match pattern) (find_all_subgraphs node_match host pattern)
      else find_all_subgraphs node_match host pattern)"

subsection \<open>The brute-force search\<close>

text \<open>
  The reference the tests compare with, in the words of the property: every injective
  assignment of host nodes to the pattern nodes is generated, and kept when the predicate
  holds on every pair and every pattern edge is mapped to a host edge.
\<close>

fun assignments :: "nat list \<Rightarrow> nat list \<Rightarrow> (nat \<times> nat) list list" where
  "assignments [] hs = [[]]"
| "assignments (p # ps) hs =
     concat (map (\<lambda>h. map (\<lambda>m. (h, p) # m) (assignments ps (removeAll h hs))) hs)"

definition is_match :: "('a \<Rightarrow> 'b \<Rightarrow> bool) \<Rightarrow> 'a graph \<Rightarrow> 'b graph \<Rightarrow> (nat \<times> nat) list \<Rightarrow> bool" where
  "is_match node_match host pattern m \<longleftrightarrow>
     list_all (\<lambda>(h, p). compatible node_match host pattern h p) m \<and>
     list_all (\<lambda>(u, v).
        list_all (\<lambda>(hu, u'). list_all (\<lambda>(hv, v'). u' = u \<and> v' = v \<longrightarrow> has_edge host hu hv) m) m)
       (edges pattern)"

definition brute_force ::
  "('a \<Rightarrow> 'b \<Rightarrow> bool) \<Rightarrow> 'a graph \<Rightarrow> 'b graph \<Rightarrow> (nat \<times> nat) list list" where
  "brute_force node_match host pattern =
     filter (is_match node_match host pattern) (assignments (node_idxs pattern) (node_idxs host))"

subsection \<open>Notions for the properties of the matcher\<close>

text \<open>The mappings that complete a state of the search.\<close>

definition completions ::
  "'a graph \<Rightarrow> 'b graph \<Rightarrow> (nat \<times> nat list) list \<Rightarrow> (nat \<times> nat) list \<Rightarrow> (nat \<times> nat) set set" where
  "completions host pattern todo mapping =
     {set mapping \<union> (\<lambda>q. (f q, q)) ` fst ` set todo | f.
        (\<forall>(q, cs) \<in> set todo. f q \<in> set cs) \<and>
        inj_on f (fst ` set todo) \<and>
        (\<forall>q \<in> fst ` set todo. \<forall>q' \<in> fst ` set todo.
           has_edge pattern q q' \<longrightarrow> has_edge host (f q) (f q'))}"

definition self_ok :: "'a graph \<Rightarrow> 'b graph \<Rightarrow> (nat \<times> nat list) list \<Rightarrow> bool" where
  "self_ok host pattern todo \<longleftrightarrow>
     (\<forall>(q, cs) \<in> set todo. \<forall>h \<in> set cs. has_edge pattern q q \<longrightarrow> has_edge host h h)"

definition match_set :: "('a \<Rightarrow> 'b \<Rightarrow> bool) \<Rightarrow> 'a graph \<Rightarrow> 'b graph \<Rightarrow> (nat \<times> nat) set \<Rightarrow> bool" where
  "match_set node_match host pattern S \<longleftrightarrow>
     (\<forall>(h, p) \<in> S. compatible node_match host pattern h p) \<and>
     (\<forall>(u, v) \<in> set (edges pattern). \<forall>(hu, u') \<in> S. \<forall>(hv, v') \<in> S.
        u' = u \<and> v' = v \<longrightarrow> has_edge host hu hv)"

text \<open>
  The valid mappings of the contract, as sets of pairs: the images of the pattern nodes
  under an injective function into the host nodes that satisfies the predicate and the
  edge condition.
\<close>

definition valid_mappings ::
  "('a \<Rightarrow> 'b \<Rightarrow> bool) \<Rightarrow> 'a graph \<Rightarrow> 'b graph \<Rightarrow> (nat \<times> nat) set set" where
  "valid_mappings node_match host pattern =
     {(\<lambda>q. (f q, q)) ` set (node_idxs pattern) | f.
        (\<forall>q \<in> set (node_idxs pattern). f q \<in> set (node_idxs host)) \<and>
        inj_on f (set (node_idxs pattern)) \<and>
        match_set node_match host pattern ((\<lambda>q. (f q, q)) ` set (node_idxs pattern))}"

text \<open>\<open>images\<close> on the set of pairs of a mapping.\<close>

definition images_set :: "nat list \<Rightarrow> (nat \<times> nat) set \<Rightarrow> nat list list" where
  "images_set ps M = map (\<lambda>q. sorted_list_of_set {h. (h, q) \<in> M}) ps"

text \<open>
  Two mappings are equivalent when they differ by an automorphism of the pattern.
\<close>

definition equivalent :: "('a \<Rightarrow> 'a \<Rightarrow> bool) \<Rightarrow> 'a graph \<Rightarrow> (nat \<times> nat) set \<Rightarrow> (nat \<times> nat) set \<Rightarrow> bool" where
  "equivalent node_match pattern M M' \<longleftrightarrow>
     (\<exists>\<sigma> \<in> set (automorphisms node_match pattern). M' = M O set \<sigma>)"

text \<open>\<open>canonical\<close> on the set of pairs of a mapping.\<close>

definition canonical_set ::
  "('a \<Rightarrow> 'a \<Rightarrow> bool) \<Rightarrow> 'a graph \<Rightarrow> (nat \<times> nat) set \<Rightarrow> bool" where
  "canonical_set node_match pattern M \<longleftrightarrow>
     (\<forall>S \<in> valid_mappings node_match pattern pattern.
        images_set (node_idxs pattern) M \<le> images_set (node_idxs pattern) (M O S))"

section \<open>The scenarios\<close>

text \<open>
  A molecule node as the upstream steps leave it: named, with its element and residue,
  flagged when it was not recognised.
\<close>

definition atom :: "string \<Rightarrow> string \<Rightarrow> int \<Rightarrow> bool option \<Rightarrow> mol_node" where
  "atom a e r flag =
     \<lparr>atomname = Some a, element = Some e, PTM_atom = flag, rename = None,
      resid = Some r, modifications = None, graph = None\<rparr>"

text \<open>Scenario A: residue 1 with \<open>N\<close> bonded to \<open>HN\<close>, \<open>HN2\<close> and \<open>HN3\<close>.\<close>

definition scenario_A :: molecule where
  "scenario_A =
     \<lparr>nodes =
        [(0, atom ''N'' ''N'' 1 None),
         (1, atom ''HN'' ''H'' 1 None),
         (2, atom ''HN2'' ''H'' 1 (Some True)),
         (3, atom ''HN3'' ''H'' 1 (Some True))],
      edges = [(0, 1), (0, 2), (0, 3)],
      name = None\<rparr>"

text \<open>
  A residue with a modification of two unrecognised atoms in a row:
  \<open>CA\<close> (0) bonded to \<open>X1\<close> (1), which is bonded to \<open>X2\<close> (2).
\<close>

definition flagged_chain :: molecule where
  "flagged_chain =
     \<lparr>nodes =
        [(0, atom ''CA'' ''C'' 1 None),
         (1, atom ''X1'' ''C'' 1 (Some True)),
         (2, atom ''X2'' ''C'' 1 (Some True))],
      edges = [(0, 1), (1, 2)],
      name = None\<rparr>"

text \<open>
  A chain of three unrecognised atoms (1, 2, 3) on the atom \<open>CA\<close> (0), which also carries
  the recognised chain \<open>CB\<close> (4), \<open>CG\<close> (5).
\<close>

definition long_branch :: molecule where
  "long_branch =
     \<lparr>nodes =
        [(0, atom ''CA'' ''C'' 1 None),
         (1, atom ''X1'' ''C'' 1 (Some True)),
         (2, atom ''X2'' ''C'' 1 (Some True)),
         (3, atom ''X3'' ''C'' 1 (Some True)),
         (4, atom ''CB'' ''C'' 1 None),
         (5, atom ''CG'' ''C'' 1 None)],
      edges = [(0, 1), (1, 2), (2, 3), (0, 4), (4, 5)],
      name = None\<rparr>"

text \<open>The match of the N-terminus on scenario A that the matcher yields first.\<close>

definition scenario_A_match :: match where
  "scenario_A_match = [(0, 0), (1, 1), (2, 2), (3, 3)]"

text \<open>
  The matches of the N-terminus on scenario A: the hydrogens \<open>HN2\<close> and \<open>HN3\<close> of the
  reference can be mapped either way. The islands are those \<open>find_PTM_atoms\<close> returns.
\<close>

definition scenario_A_matcher :: "molecule \<Rightarrow> ptm \<Rightarrow> match list" where
  "scenario_A_matcher residue ptm =
     (if name ptm = Some ''N-terminus''
      then [scenario_A_match, [(0, 0), (1, 1), (2, 3), (3, 2)]]
      else [])"

definition scenario_A_islands :: "island list" where
  "scenario_A_islands = [({2}, {0}), ({3}, {0})]"

text \<open>
  A residue whose atom \<open>N\<close> (0) carries two unrecognised atoms, a hydrogen (1) and an
  oxygen (2), with a library of two modifications: \<open>N\<close> with a hydrogen, and \<open>N\<close> with
  a hydrogen and an oxygen. The islands are those \<open>find_PTM_atoms\<close> returns, the
  options those of \<open>fix_ptm\<close>: each modification with the matches that respect
  \<open>semantic_feasibility\<close>, the smaller modification first.
\<close>

definition two_branches :: molecule where
  "two_branches =
     \<lparr>nodes =
        [(0, atom ''N'' ''N'' 1 None),
         (1, atom ''X1'' ''H'' 1 (Some True)),
         (2, atom ''X2'' ''O'' 1 (Some True))],
      edges = [(0, 1), (0, 2)],
      name = None\<rparr>"

definition ptm_H :: ptm where
  "ptm_H =
     \<lparr>nodes =
        [(0, \<lparr>atomname = Some ''N'', element = Some ''N'', PTM_atom = Some False, rename = None\<rparr>),
         (1, \<lparr>atomname = Some ''H1'', element = Some ''H'', PTM_atom = Some True, rename = None\<rparr>)],
      edges = [(0, 1)],
      name = Some ''H''\<rparr>"

definition ptm_HO :: ptm where
  "ptm_HO =
     \<lparr>nodes =
        [(0, \<lparr>atomname = Some ''N'', element = Some ''N'', PTM_atom = Some False, rename = None\<rparr>),
         (1, \<lparr>atomname = Some ''H1'', element = Some ''H'', PTM_atom = Some True, rename = None\<rparr>),
         (2, \<lparr>atomname = Some ''O1'', element = Some ''O'', PTM_atom = Some True, rename = None\<rparr>)],
      edges = [(0, 1), (0, 2)],
      name = Some ''HO''\<rparr>"

definition two_branches_islands :: "island list" where
  "two_branches_islands = [({1}, {0}), ({2}, {0})]"

definition two_branches_options :: "option_ptm list" where
  "two_branches_options =
     [(ptm_H, [[(0, 0), (1, 1)]]), (ptm_HO, [[(0, 0), (1, 1), (2, 2)]])]"

definition two_branches_matcher :: "molecule \<Rightarrow> ptm \<Rightarrow> match list" where
  "two_branches_matcher residue ptm =
     (if name ptm = Some ''H'' then [[(0, 0), (1, 1)]]
      else if name ptm = Some ''HO'' then [[(0, 0), (1, 1), (2, 2)]]
      else [])"

text \<open>The graphs of the tests of the matcher: a square, a path and a triangle.\<close>

definition square :: "unit graph" where
  "square = \<lparr>nodes = [(1, ()), (2, ()), (3, ()), (4, ())],
             edges = [(1, 2), (2, 4), (4, 3), (3, 1)], name = None\<rparr>"

definition path3 :: "unit graph" where
  "path3 = \<lparr>nodes = [(5, ()), (6, ()), (7, ())], edges = [(5, 6), (6, 7)], name = None\<rparr>"

definition triangle :: "unit graph" where
  "triangle = \<lparr>nodes = [(0, ()), (1, ()), (2, ())], edges = [(0, 1), (1, 2), (2, 0)],
               name = None\<rparr>"

section \<open>Verified properties\<close>

subsection \<open>The compatibility predicate\<close>

text \<open>
  C6. For a host node and a pattern node that carry the attributes of the data model, the
  compatibility predicate returns false when the \<open>PTM_atom\<close> flags of the two nodes
  differ (an absent flag of the host counts as false); when both flags are true it returns
  true iff the elements are equal; when both are false it returns true iff the atom names
  are equal.
\<close>

theorem semantic_feasibility_flags:
  assumes "node_of G1 n1 = Inr d1" and "node_of G2 n2 = Inr d2"
    and "PTM_atom d2 = Some flag2"
    and "element d1 = Some e1" and "element d2 = Some e2"
    and "atomname d1 = Some a1" and "atomname d2 = Some a2"
  shows "semantic_feasibility G1 G2 n1 n2 =
           Inr (if get_PTM_atom d1 \<noteq> flag2 then False
                else if flag2 then e1 = e2
                else a1 = a2)"
  using assms by (simp add: semantic_feasibility_def node_compat_def)

theorem semantic_feasibility_flags_witness:
  "semantic_feasibility scenario_A n_term 2 3 = Inr True
   \<and> semantic_feasibility scenario_A n_term 1 1 = Inr True
   \<and> semantic_feasibility scenario_A n_term 1 0 = Inr False
   \<and> semantic_feasibility scenario_A n_term 2 1 = Inr False"
proof -
  have d: "node_of scenario_A 2 = Inr (atom ''HN2'' ''H'' 1 (Some True))"
    "node_of scenario_A 1 = Inr (atom ''HN'' ''H'' 1 None)"
    by (simp_all add: node_of_def scenario_A_def)
  have p: "node_of n_term 3
             = Inr \<lparr>atomname = Some ''HN3'', element = Some ''H'', PTM_atom = Some True, rename = None\<rparr>"
    "node_of n_term 1
             = Inr \<lparr>atomname = Some ''HN'', element = Some ''H'', PTM_atom = Some False,
                    rename = Some ''HN1''\<rparr>"
    "node_of n_term 0
             = Inr \<lparr>atomname = Some ''N'', element = Some ''N'', PTM_atom = Some False, rename = None\<rparr>"
    by (simp_all add: node_of_def n_term_def)
  show ?thesis
    using semantic_feasibility_flags [OF d(1) p(1), of True "''H''" "''H''" "''HN2''" "''HN3''"]
      semantic_feasibility_flags [OF d(2) p(2), of False "''H''" "''H''" "''HN''" "''HN''"]
      semantic_feasibility_flags [OF d(2) p(3), of False "''H''" "''N''" "''HN''" "''N''"]
      semantic_feasibility_flags [OF d(1) p(2), of False "''H''" "''H''" "''HN2''" "''HN''"]
    by (simp add: atom_def get_PTM_atom_def)
qed

subsection \<open>The island locator\<close>

lemma bfs_successors_loop_first:
  "\<exists>cs rest. bfs_successors_loop parent children es = (parent, cs) # rest"
  by (induction es arbitrary: children) auto

lemma bfs_successors_first: "\<exists>cs rest. bfs_successors G source = (source, cs) # rest"
  by (simp add: bfs_successors_def bfs_successors_loop_first)

lemma traverse_atoms_mono:
  "traverse extra_atoms ys to_see atoms anchors = Inr (atoms', anchors') \<Longrightarrow> atoms \<subseteq> atoms'"
proof (induction extra_atoms ys to_see atoms anchors rule: traverse.induct)
  case (1 extra_atoms to_see atoms anchors)
  then show ?case by simp
next
  case (2 extra_atoms orig succ rest to_see atoms anchors)
  show ?case
  proof (cases "orig \<in> extra_atoms")
    case True
    then show ?thesis using 2 by (fastforce split: if_splits)
  next
    case False
    then show ?thesis using 2 by (fastforce split: if_splits)
  qed
qed

text \<open>The first pair the generator yields is the seed's, so the seed joins \<open>atoms\<close>.\<close>

lemma traverse_seed:
  assumes "first \<in> extra_atoms"
    and "traverse extra_atoms (bfs_successors G first) {first} {} {} = Inr (atoms, anchors)"
  shows "first \<in> atoms"
proof -
  obtain cs rest where b: "bfs_successors G first = (first, cs) # rest"
    using bfs_successors_first by blast
  show ?thesis
  proof (cases "set cs = {}")
    case True
    then show ?thesis using assms by (auto simp: b)
  next
    case False
    then have "traverse extra_atoms rest (set cs) {first} {} = Inr (atoms, anchors)"
      using assms by (simp add: b)
    then show ?thesis using traverse_atoms_mono by blast
  qed
qed

lemma find_PTM_atoms_loop_returns:
  assumes pick: "\<And>S. finite S \<Longrightarrow> S \<noteq> {} \<Longrightarrow> pick S \<in> S"
  shows "finite extra_atoms \<Longrightarrow> \<exists>r. find_PTM_atoms_loop pick molecule extra_atoms PTMs = Some r"
proof (induction "card extra_atoms" arbitrary: extra_atoms PTMs rule: less_induct)
  case less
  show ?case
  proof (cases "extra_atoms = {}")
    case True
    then show ?thesis by (subst find_PTM_atoms_loop.simps) simp
  next
    case False
    let ?first = "pick extra_atoms"
    have first: "?first \<in> extra_atoms" using pick less.prems False by blast
    show ?thesis
    proof (cases "traverse extra_atoms (bfs_successors molecule ?first) {?first} {} {}")
      case (Inl e)
      then show ?thesis using False by (subst find_PTM_atoms_loop.simps) simp
    next
      case (Inr island)
      obtain atoms anchors where island: "island = (atoms, anchors)" by (cases island)
      have "?first \<in> atoms" using traverse_seed [OF first] Inr island by blast
      then have "extra_atoms - atoms \<subset> extra_atoms" using first by blast
      then have "card (extra_atoms - atoms) < card extra_atoms"
        using less.prems by (simp add: psubset_card_mono)
      moreover have "finite (extra_atoms - atoms)" using less.prems by simp
      ultimately obtain r where
        "find_PTM_atoms_loop pick molecule (extra_atoms - atoms) (PTMs @ [(atoms, anchors)]) = Some r"
        using less.hyps by blast
      then show ?thesis using False Inr island by (subst find_PTM_atoms_loop.simps) simp
    qed
  qed
qed

text \<open>
  C10. \<open>find_PTM_atoms\<close> terminates (with the list of islands or with \<open>KeyError\<close>)
  for every molecule in which each flagged node has at least one neighbour, whichever
  element \<open>next(iter(extra_atoms))\<close> takes: every iteration of the outer loop that
  completes its traversal has put the chosen seed into \<open>atoms\<close>, so the set of remaining
  flagged nodes strictly shrinks. (The proof does not use the assumption on the
  neighbours: the generator yields the seed's pair also when the seed is isolated.)
\<close>

theorem find_PTM_atoms_terminates:
  assumes pick: "\<And>S. finite S \<Longrightarrow> S \<noteq> {} \<Longrightarrow> pick S \<in> S"
    and "\<forall>n \<in> PTM_atom_set molecule. neighbors molecule n \<noteq> []"
  shows "(\<exists>r. find_PTM_atoms pick molecule = Some r) \<and>
         (\<forall>extra_atoms atoms anchors.
            finite extra_atoms \<and> extra_atoms \<noteq> {} \<and>
            traverse extra_atoms (bfs_successors molecule (pick extra_atoms))
              {pick extra_atoms} {} {} = Inr (atoms, anchors)
            \<longrightarrow> pick extra_atoms \<in> atoms \<and> extra_atoms - atoms \<subset> extra_atoms)"
proof (intro conjI allI impI)
  show "\<exists>r. find_PTM_atoms pick molecule = Some r"
    unfolding find_PTM_atoms_def
    by (rule find_PTM_atoms_loop_returns [OF pick]) (simp_all add: PTM_atom_set_def)
next
  fix extra_atoms atoms anchors
  assume a: "finite extra_atoms \<and> extra_atoms \<noteq> {} \<and>
            traverse extra_atoms (bfs_successors molecule (pick extra_atoms))
              {pick extra_atoms} {} {} = Inr (atoms, anchors)"
  then have first: "pick extra_atoms \<in> extra_atoms" using pick by blast
  then show "pick extra_atoms \<in> atoms" using a traverse_seed by blast
  then show "extra_atoms - atoms \<subset> extra_atoms" using first by blast
qed

theorem find_PTM_atoms_terminates_witness:
  "\<exists>r. find_PTM_atoms Min scenario_A = Some r"
proof -
  have "\<forall>n \<in> PTM_atom_set scenario_A. neighbors scenario_A n \<noteq> []"
    by (simp add: PTM_atom_set_def scenario_A_def node_idxs_def is_PTM_atom_def
        get_PTM_atom_def atom_def neighbors_def)
  then show ?thesis
    using find_PTM_atoms_terminates [of Min scenario_A] by simp
qed

text \<open>
  C3 fails on the chain \<open>CA - X1 - X2\<close>. \<open>{1, 2}\<close> iterates as 1, 2, so the first seed is
  1. The traversal from 1 yields the single pair \<open>(1, [0, 2])\<close>: 0 and 2 have no children
  in the breadth-first tree and are never visited by the loop, so the first island is
  \<open>({1}, {})\<close>, without its anchor 0 and without the flagged atom 2 bonded to it. The
  traversal from 2 then meets 1, which has left \<open>extra_atoms\<close>, and records it as an
  anchor: an anchor that is flagged \<open>PTM_atom\<close>.
\<close>

theorem find_PTM_atoms_flagged_anchor:
  "find_PTM_atoms Min flagged_chain = Some (Inr [({1}, {}), ({2}, {1})])
   \<and> is_PTM_atom flagged_chain 1
   \<and> (1, 2) \<in> set (edges flagged_chain)"
proof -
  have "find_PTM_atoms Min flagged_chain = Some (Inr [({1}, {}), ({2}, {1})])"
    by code_simp
  moreover have "is_PTM_atom flagged_chain 1"
    by (simp add: is_PTM_atom_def flagged_chain_def atom_def get_PTM_atom_def)
  moreover have "(1, 2) \<in> set (edges flagged_chain)"
    by (simp add: flagged_chain_def)
  ultimately show ?thesis by simp
qed

text \<open>
  On \<open>long_branch\<close>, started at atom 1, the traversal yields the recognised atom 4:
  it was never added to \<open>to_see\<close>, so that \<open>to_see.remove\<close> raises \<open>KeyError\<close>.
\<close>

lemma find_PTM_atoms_KeyError:
  "bfs_successors long_branch 1 = [(1, [0, 2]), (0, [4]), (2, [3]), (4, [5])]
   \<and> find_PTM_atoms Min long_branch = Some (Inl KeyError)"
  by code_simp

subsection \<open>Applying the identified modifications\<close>

lemma node_of_map_of: "node_of G n = Inr d \<longleftrightarrow> map_of (nodes G) n = Some d"
  by (simp add: node_of_def split: option.splits)

lemma map_of_map_entries:
  "map_of (map (\<lambda>(n, d). (n, g n d)) xs) k = map_option (g k) (map_of xs k)"
  by (induction xs) auto

lemma map_of_update_node:
  "map_of (nodes (update_node G n_idx f)) k
     = map_option (\<lambda>d. if k = n_idx then f d else d) (map_of (nodes G) k)"
proof -
  have "(\<lambda>(n, d). if n = n_idx then (n, f d) else (n, d))
          = (\<lambda>(n, d). (n, if n = n_idx then f d else d))"
    by auto
  then show ?thesis
    by (simp add: update_node_def map_of_map_entries)
qed

lemma map_of_append_modification:
  "map_of (nodes (append_modification ptm n_idxs molecule)) k
     = map_option (\<lambda>d. if k \<in> n_idxs then d\<lparr>modifications := Some (get_modifications d @ [ptm])\<rparr> else d)
         (map_of (nodes molecule) k)"
proof -
  have "(\<lambda>(n, d). if n \<in> n_idxs then (n, d\<lparr>modifications := Some (get_modifications d @ [ptm])\<rparr>) else (n, d))
          = (\<lambda>(n, d). (n, if n \<in> n_idxs then d\<lparr>modifications := Some (get_modifications d @ [ptm])\<rparr> else d))"
    by auto
  then show ?thesis
    by (simp add: append_modification_def map_of_map_entries)
qed

lemma rename_atom_map_of:
  assumes "rename_atom ptm mol_idx ptm_idx molecule = Inr molecule'"
  shows "\<exists>ptm_node. node_of ptm ptm_idx = Inr ptm_node \<and>
           (\<forall>k. map_of (nodes molecule') k
                  = map_option (\<lambda>d. if k = mol_idx then renamed mol_idx ptm_node d else d)
                      (map_of (nodes molecule) k))"
proof -
  obtain ptm_node where p: "node_of ptm ptm_idx = Inr ptm_node"
    using assms by (auto simp: rename_atom_def split: sum.splits)
  obtain mol_node where m: "node_of molecule mol_idx = Inr mol_node"
    using assms p by (auto simp: rename_atom_def split: sum.splits)
  obtain flag where f: "PTM_atom ptm_node = Some flag"
    using assms p m by (auto simp: rename_atom_def split: option.splits)
  have mm: "map_of (nodes molecule) mol_idx = Some mol_node"
    using m by (simp add: node_of_map_of)
  show ?thesis
  proof (cases "flag \<or> rename ptm_node \<noteq> None")
    case False
    then have "molecule' = molecule" using assms p m f by (simp add: rename_atom_def)
    moreover have "renamed mol_idx ptm_node d = d" for d
      using False f by (auto simp: renamed_def)
    ultimately show ?thesis using p by (simp add: option.map_ident cong: if_cong)
  next
    case True
    obtain ptm_name where pn: "atomname ptm_node = Some ptm_name"
      using assms p m f True by (auto simp: rename_atom_def split: option.splits)
    have eq: "molecule' = update_node molecule mol_idx
                (\<lambda>d. d\<lparr>graph := Some (snapshot_of mol_idx mol_node),
                       atomname := Some (case rename ptm_node of None \<Rightarrow> ptm_name | Some new_name \<Rightarrow> new_name)\<rparr>)"
      using assms p m f True pn by (auto simp: rename_atom_def split: option.splits)
    have "map_of (nodes molecule') k
            = map_option (\<lambda>d. if k = mol_idx then renamed mol_idx ptm_node d else d)
                (map_of (nodes molecule) k)" for k
    proof (cases "k = mol_idx")
      case False
      then show ?thesis by (simp add: eq map_of_update_node)
    next
      case k: True
      show ?thesis
        using True f pn by (auto simp: eq map_of_update_node k mm renamed_def split: option.splits)
    qed
    then show ?thesis using p by blast
  qed
qed

lemma rename_atoms_map_of:
  assumes "rename_atoms ptm match molecule = Inr molecule'"
    and "distinct (map fst match)"
  shows "map_of (nodes molecule') k = map_option (renamed_by ptm match k) (map_of (nodes molecule) k)"
  using assms
proof (induction match arbitrary: molecule)
  case Nil
  have "renamed_by ptm [] k = (\<lambda>d. d)" by (auto simp: renamed_by_def)
  then show ?case using Nil by (simp add: option.map_ident)
next
  case (Cons item items)
  obtain mol_idx ptm_idx where item: "item = (mol_idx, ptm_idx)" by (cases item)
  obtain molecule1 where
    step: "rename_atom ptm mol_idx ptm_idx molecule = Inr molecule1"
    and rest: "rename_atoms ptm items molecule1 = Inr molecule'"
    using Cons.prems(1) by (auto simp: item split: sum.splits)
  obtain ptm_node where p: "node_of ptm ptm_idx = Inr ptm_node"
    and m1: "\<And>k. map_of (nodes molecule1) k
                  = map_option (\<lambda>d. if k = mol_idx then renamed mol_idx ptm_node d else d)
                      (map_of (nodes molecule) k)"
    using rename_atom_map_of [OF step] by blast
  have d: "distinct (map fst items)" and notin: "mol_idx \<notin> fst ` set items"
    using Cons.prems(2) by (auto simp: item)
  have ih: "map_of (nodes molecule') k
              = map_option (renamed_by ptm items k) (map_of (nodes molecule1) k)"
    using Cons.IH [OF rest d] .
  show ?case
  proof (cases "k = mol_idx")
    case True
    have "map_of items k = None" using notin True by (simp add: map_of_eq_None_iff)
    then have "renamed_by ptm items k = (\<lambda>d. d)" by (auto simp: renamed_by_def)
    then have "map_of (nodes molecule') k = map_of (nodes molecule1) k"
      by (simp add: ih option.map_ident)
    also have "\<dots> = map_option (renamed mol_idx ptm_node) (map_of (nodes molecule) k)"
      using True by (simp add: m1)
    also have "renamed mol_idx ptm_node = renamed_by ptm (item # items) k"
      using True p by (auto simp: renamed_by_def item)
    finally show ?thesis .
  next
    case False
    then have "renamed_by ptm (item # items) k = renamed_by ptm items k"
      by (auto simp: renamed_by_def item)
    moreover have "map_of (nodes molecule1) k = map_of (nodes molecule) k"
      using False by (simp add: m1 option.map_ident cong: if_cong)
    ultimately show ?thesis by (simp add: ih)
  qed
qed

lemma modifications_renamed_by: "modifications (renamed_by ptm match k d) = modifications d"
  by (simp add: renamed_by_def renamed_def split: option.splits sum.splits)

text \<open>
  C7. When the renaming loop of a match has run, each mapped pair (molecule node, pattern
  node) whose pattern node is flagged \<open>PTM_atom\<close> or carries \<open>rename\<close> has the
  molecule node's \<open>atomname\<close> set to the pattern's \<open>rename\<close> if present, else to the
  pattern's \<open>atomname\<close>, and its provenance attribute \<open>graph\<close> set to the snapshot of
  the node as it was before the renaming; a mapped node for which neither holds is left as
  it was. A match is a dictionary: its keys are distinct.
\<close>

theorem rename_atoms_effect:
  assumes "distinct (map fst match)"
    and "rename_atoms ptm match molecule = Inr molecule'"
    and "(mol_idx, ptm_idx) \<in> set match"
    and "node_of molecule mol_idx = Inr mol_node"
    and "node_of ptm ptm_idx = Inr ptm_node"
  shows "node_of molecule' mol_idx =
           Inr (if PTM_atom ptm_node = Some True \<or> rename ptm_node \<noteq> None
                then mol_node\<lparr>graph := Some (snapshot_of mol_idx mol_node),
                              atomname := (case rename ptm_node of
                                             None \<Rightarrow> atomname ptm_node
                                           | Some new_name \<Rightarrow> Some new_name)\<rparr>
                else mol_node)"
proof -
  have "map_of match mol_idx = Some ptm_idx"
    using assms(1,3) by simp
  then have "renamed_by ptm match mol_idx mol_node = renamed mol_idx ptm_node mol_node"
    using assms(5) by (simp add: renamed_by_def)
  then show ?thesis
    using rename_atoms_map_of [OF assms(2,1), of mol_idx] assms(4)
    by (simp add: node_of_map_of renamed_def)
qed

lemma rename_atom_modifications:
  assumes "rename_atom ptm mol_idx ptm_idx molecule = Inr molecule'"
    and "map_of (nodes molecule) n = Some d"
  shows "\<exists>d'. map_of (nodes molecule') n = Some d' \<and> modifications d' = modifications d"
proof -
  obtain ptm_node where
    "map_of (nodes molecule') n
       = map_option (\<lambda>d. if n = mol_idx then renamed mol_idx ptm_node d else d)
           (map_of (nodes molecule) n)"
    using rename_atom_map_of [OF assms(1)] by blast
  then show ?thesis using assms(2) by (simp add: renamed_def)
qed

lemma rename_atoms_modifications:
  assumes "rename_atoms ptm match molecule = Inr molecule'"
    and "map_of (nodes molecule) n = Some d"
  shows "\<exists>d'. map_of (nodes molecule') n = Some d' \<and> modifications d' = modifications d"
  using assms
proof (induction match arbitrary: molecule d)
  case Nil
  then show ?case by simp
next
  case (Cons item items)
  obtain mol_idx ptm_idx where item: "item = (mol_idx, ptm_idx)" by (cases item)
  obtain molecule1 where
    step: "rename_atom ptm mol_idx ptm_idx molecule = Inr molecule1"
    and rest: "rename_atoms ptm items molecule1 = Inr molecule'"
    using Cons.prems(1) by (auto simp: item split: sum.splits)
  obtain d1 where d1: "map_of (nodes molecule1) n = Some d1" "modifications d1 = modifications d"
    using rename_atom_modifications [OF step Cons.prems(2)] by blast
  show ?case using Cons.IH [OF rest d1(1)] d1(2) by simp
qed

text \<open>
  C8. After the identified modifications of a residue group have been applied, every node of
  the group, matched or not, has each applied modification appended to its
  \<open>modifications\<close> list (created when absent), once per match and in the order of
  application; the lists of the nodes outside the group are unchanged.
\<close>

theorem apply_identified_modifications:
  assumes "apply_identified identified n_idxs molecule = Inr molecule'"
    and "node_of molecule n = Inr d"
  shows "\<exists>d'. node_of molecule' n = Inr d' \<and>
           modifications d' =
             (if n \<in> n_idxs \<and> identified \<noteq> []
              then Some (get_modifications d @ map fst identified)
              else modifications d)"
  using assms
proof (induction identified arbitrary: molecule d)
  case Nil
  then show ?case by simp
next
  case (Cons a identified)
  obtain ptm match where a: "a = (ptm, match)" by (cases a)
  obtain molecule1 where
    r: "rename_atoms ptm match molecule = Inr molecule1"
    and rest: "apply_identified identified n_idxs (append_modification ptm n_idxs molecule1)
                 = Inr molecule'"
    using Cons.prems(1) by (auto simp: a split: sum.splits)
  obtain d1 where m1: "map_of (nodes molecule1) n = Some d1"
    and mods1: "modifications d1 = modifications d"
    using rename_atoms_modifications [OF r] Cons.prems(2) by (auto simp: node_of_map_of)
  let ?d2 = "if n \<in> n_idxs then d1\<lparr>modifications := Some (get_modifications d1 @ [ptm])\<rparr> else d1"
  have m2: "node_of (append_modification ptm n_idxs molecule1) n = Inr ?d2"
    by (simp add: node_of_map_of map_of_append_modification m1)
  from Cons.IH [OF rest m2] obtain d' where
    d': "node_of molecule' n = Inr d'"
    and mods: "modifications d' =
                 (if n \<in> n_idxs \<and> identified \<noteq> []
                  then Some (get_modifications ?d2 @ map fst identified)
                  else modifications ?d2)"
    by blast
  have g1: "get_modifications d1 = get_modifications d"
    by (simp add: get_modifications_def mods1)
  show ?case
  proof (cases "n \<in> n_idxs")
    case True
    then show ?thesis
      using d' mods g1 by (simp add: a get_modifications_def)
  next
    case False
    then show ?thesis
      using d' mods mods1 by (simp add: a)
  qed
qed

lemma rename_atoms_succeeds:
  assumes "\<forall>(mol_idx, ptm_idx) \<in> set match.
             \<exists>mol_node ptm_node. node_of molecule mol_idx = Inr mol_node \<and> atomname mol_node \<noteq> None
               \<and> node_of ptm ptm_idx = Inr ptm_node \<and> PTM_atom ptm_node \<noteq> None
               \<and> atomname ptm_node \<noteq> None"
  shows "\<exists>molecule'. rename_atoms ptm match molecule = Inr molecule'"
  using assms
proof (induction match arbitrary: molecule)
  case Nil
  then show ?case by simp
next
  case (Cons item items)
  obtain mol_idx ptm_idx where item: "item = (mol_idx, ptm_idx)" by (cases item)
  obtain mol_node ptm_node where
    m: "node_of molecule mol_idx = Inr mol_node" "atomname mol_node \<noteq> None"
    and p: "node_of ptm ptm_idx = Inr ptm_node" "PTM_atom ptm_node \<noteq> None"
      "atomname ptm_node \<noteq> None"
    using Cons.prems by (auto simp: item)
  have "\<exists>molecule1. rename_atom ptm mol_idx ptm_idx molecule = Inr molecule1"
    using m p by (auto simp: rename_atom_def)
  then obtain molecule1 where step: "rename_atom ptm mol_idx ptm_idx molecule = Inr molecule1"
    by blast
  obtain q where q: "node_of ptm ptm_idx = Inr q"
    and m1: "\<And>k. map_of (nodes molecule1) k
                  = map_option (\<lambda>d. if k = mol_idx then renamed mol_idx q d else d)
                      (map_of (nodes molecule) k)"
    using rename_atom_map_of [OF step] by blast
  have q_eq: "q = ptm_node" using q p(1) by simp
  have "\<forall>(i, j) \<in> set items.
             \<exists>mol_node ptm_node. node_of molecule1 i = Inr mol_node \<and> atomname mol_node \<noteq> None
               \<and> node_of ptm j = Inr ptm_node \<and> PTM_atom ptm_node \<noteq> None
               \<and> atomname ptm_node \<noteq> None"
  proof (intro ballI, clarify)
    fix i j assume ij: "(i, j) \<in> set items"
    then obtain d pn where
      d: "node_of molecule i = Inr d" "atomname d \<noteq> None"
      and pn: "node_of ptm j = Inr pn" "PTM_atom pn \<noteq> None" "atomname pn \<noteq> None"
      using Cons.prems by fastforce
    have "node_of molecule1 i = Inr (if i = mol_idx then renamed mol_idx q d else d)"
      using d(1) by (simp add: node_of_map_of m1)
    moreover have "atomname (if i = mol_idx then renamed mol_idx q d else d) \<noteq> None"
      using d(2) p(3) by (auto simp: renamed_def q_eq split: option.splits)
    ultimately show "\<exists>mol_node ptm_node. node_of molecule1 i = Inr mol_node \<and> atomname mol_node \<noteq> None
               \<and> node_of ptm j = Inr ptm_node \<and> PTM_atom ptm_node \<noteq> None
               \<and> atomname ptm_node \<noteq> None"
      using pn by blast
  qed
  from Cons.IH [OF this] show ?case using step by (simp add: item)
qed

theorem rename_atoms_effect_witness:
  "\<exists>molecule'. rename_atoms n_term scenario_A_match scenario_A = Inr molecule'
     \<and> node_of molecule' 1
           = Inr ((atom ''HN'' ''H'' 1 None)
                   \<lparr>graph := Some (Snapshot 1 (Some ''HN'') (Some ''H'') None None (Some 1) None),
                     atomname := Some ''HN1''\<rparr>)
     \<and> node_of molecule' 0 = Inr (atom ''N'' ''N'' 1 None)
     \<and> node_of molecule' 2
           = Inr ((atom ''HN2'' ''H'' 1 (Some True))
                   \<lparr>graph := Some (Snapshot 2 (Some ''HN2'') (Some ''H'') (Some True) None (Some 1) None),
                     atomname := Some ''HN2''\<rparr>)"
proof -
  have "\<forall>(mol_idx, ptm_idx) \<in> set scenario_A_match.
             \<exists>mol_node ptm_node. node_of scenario_A mol_idx = Inr mol_node \<and> atomname mol_node \<noteq> None
               \<and> node_of n_term ptm_idx = Inr ptm_node \<and> PTM_atom ptm_node \<noteq> None
               \<and> atomname ptm_node \<noteq> None"
    by (auto simp: scenario_A_match_def scenario_A_def n_term_def node_of_def atom_def)
  then obtain molecule' where r: "rename_atoms n_term scenario_A_match scenario_A = Inr molecule'"
    using rename_atoms_succeeds by blast
  have d: "distinct (map fst scenario_A_match)" by (simp add: scenario_A_match_def)
  have m: "(1, 1) \<in> set scenario_A_match" "(0, 0) \<in> set scenario_A_match"
    "(2, 2) \<in> set scenario_A_match"
    by (simp_all add: scenario_A_match_def)
  have mol: "node_of scenario_A 1 = Inr (atom ''HN'' ''H'' 1 None)"
    "node_of scenario_A 0 = Inr (atom ''N'' ''N'' 1 None)"
    "node_of scenario_A 2 = Inr (atom ''HN2'' ''H'' 1 (Some True))"
    by (simp_all add: scenario_A_def node_of_def)
  have p: "node_of n_term 1 = Inr \<lparr>atomname = Some ''HN'', element = Some ''H'', PTM_atom = Some False, rename = Some ''HN1''\<rparr>"
    "node_of n_term 0 = Inr \<lparr>atomname = Some ''N'', element = Some ''N'', PTM_atom = Some False, rename = None\<rparr>"
    "node_of n_term 2 = Inr \<lparr>atomname = Some ''HN2'', element = Some ''H'', PTM_atom = Some True, rename = None\<rparr>"
    by (simp_all add: n_term_def node_of_def)
  show ?thesis
    using rename_atoms_effect [OF d r m(1) mol(1) p(1)]
      rename_atoms_effect [OF d r m(2) mol(2) p(2)]
      rename_atoms_effect [OF d r m(3) mol(3) p(3)] r
    by (simp add: snapshot_of_def atom_def)
qed

theorem apply_identified_modifications_witness:
  "\<exists>molecule' d0 d1. apply_identified [(n_term, scenario_A_match)] {0, 1, 2, 3} scenario_A = Inr molecule'
      \<and> node_of molecule' 0 = Inr d0 \<and> modifications d0 = Some [n_term]
      \<and> node_of molecule' 1 = Inr d1 \<and> modifications d1 = Some [n_term]"
proof -
  have "\<exists>molecule'. apply_identified [(n_term, scenario_A_match)] {0, 1, 2, 3} scenario_A = Inr molecule'"
    by (simp add: scenario_A_match_def scenario_A_def n_term_def node_of_def atom_def
        rename_atom_def update_node_def)
  then obtain molecule' where
    r: "apply_identified [(n_term, scenario_A_match)] {0, 1, 2, 3} scenario_A = Inr molecule'"
    by blast
  have mol: "node_of scenario_A 0 = Inr (atom ''N'' ''N'' 1 None)"
    "node_of scenario_A 1 = Inr (atom ''HN'' ''H'' 1 None)"
    by (simp_all add: scenario_A_def node_of_def)
  obtain d0 where d0: "node_of molecule' 0 = Inr d0" "modifications d0 = Some [n_term]"
    using apply_identified_modifications [OF r mol(1)]
    by (auto simp: get_modifications_def atom_def)
  obtain d1 where d1: "node_of molecule' 1 = Inr d1" "modifications d1 = Some [n_term]"
    using apply_identified_modifications [OF r mol(2)]
    by (auto simp: get_modifications_def atom_def)
  show ?thesis using r d0 d1 by blast
qed

text \<open>
  The whole processor on scenario A: the hydrogen \<open>HN\<close> is renamed to \<open>HN1\<close>, and the
  N-terminus is appended to the modifications of the four atoms of the residue.
\<close>

lemma scenario_A_fix_ptm:
  "\<exists>molecule'. fix_ptm Min scenario_A_matcher scenario_A = Some (Inr molecule')
     \<and> map (\<lambda>(n, d). atomname d) (nodes molecule')
         = [Some ''N'', Some ''HN1'', Some ''HN2'', Some ''HN3'']
     \<and> map (\<lambda>(n, d). map_option (map name) (modifications d)) (nodes molecule')
         = replicate 4 (Some [Some ''N-terminus''])"
proof -
  have "case fix_ptm Min scenario_A_matcher scenario_A of
          Some (Inr molecule') \<Rightarrow>
            map (\<lambda>(n, d). atomname d) (nodes molecule')
              = [Some ''N'', Some ''HN1'', Some ''HN2'', Some ''HN3'']
            \<and> map (\<lambda>(n, d). map_option (map name) (modifications d)) (nodes molecule')
              = replicate 4 (Some [Some ''N-terminus''])
        | _ \<Rightarrow> False"
    by code_simp
  then show ?thesis by (auto split: option.splits sum.splits)
qed

subsection \<open>The search for the modifications of a residue group\<close>

lemma find_Some_D:
  "find P xs = Some x \<Longrightarrow> x \<in> set xs \<and> P x"
  by (induction xs) (auto split: if_splits)

lemma first_match_Some:
  assumes "first_match available options idx0 = Some (idx, ptm, match)"
  shows "\<exists>k. idx = idx0 + k \<and> k < length options
         \<and> fst (options ! k) = ptm
         \<and> match \<in> set (snd (options ! k))
         \<and> match_keys match \<subseteq> available"
  using assms
proof (induction available options idx0 rule: first_match.induct)
  case (1 available idx)
  then show ?case by simp
next
  case (2 available ptm' matches options idx0)
  show ?case
  proof (cases "find (\<lambda>match. match_keys match \<subseteq> available) matches")
    case None
    then have "first_match available options (Suc idx0) = Some (idx, ptm, match)"
      using 2(2) by simp
    from 2(1) [OF None this] obtain k where
      "idx = Suc idx0 + k" "k < length options" "fst (options ! k) = ptm"
      "match \<in> set (snd (options ! k))" "match_keys match \<subseteq> available"
      by blast
    then show ?thesis
      by (intro exI [of _ "Suc k"]) simp
  next
    case (Some m)
    then have "idx = idx0" "ptm = ptm'" "match = m" using 2(2) by simp_all
    then show ?thesis using find_Some_D [OF Some]
      by (intro exI [of _ 0]) simp
  qed
qed

lemma first_match_None:
  "first_match available options idx0 = None \<longleftrightarrow>
     (\<forall>opt \<in> set options. \<forall>match \<in> set (snd opt). \<not> match_keys match \<subseteq> available)"
proof (induction available options idx0 rule: first_match.induct)
  case (1 available idx)
  then show ?case by simp
next
  case (2 available ptm matches options idx)
  show ?case
  proof (cases "find (\<lambda>match. match_keys match \<subseteq> available) matches")
    case None
    then have "\<forall>match \<in> set matches. \<not> match_keys match \<subseteq> available"
      by (simp add: find_None_iff)
    then show ?thesis using 2 [OF None] None by simp
  next
    case (Some m)
    then show ?thesis using find_Some_D [OF Some] by auto
  qed
qed


lemmas identify_ptms_induct = identify_ptms.raw_induct [rotated 1, consumes 1, case_names step]

lemma identify_ptms_identifies_aux:
  "identify_ptms residue residue_ptms options = Some r
     \<Longrightarrow> \<forall>identified. r = Inr identified \<longrightarrow> identifies residue residue_ptms options identified"
proof (induction rule: identify_ptms_induct)
  case (step rec residue residue_ptms options r)
  show ?case
  proof (intro allI impI)
    fix identified assume r: "r = Inr identified"
    show "identifies residue residue_ptms options identified"
    proof (cases "list_ex (\<lambda>res_ptm. fst res_ptm \<noteq> {}) residue_ptms")
      case False
      then show ?thesis using step(2) r by (auto intro: identifies.base)
    next
      case True
      show ?thesis
      proof (cases "first_match (available_atoms residue residue_ptms) options 0")
        case None
        then show ?thesis using True step(2) r by simp
      next
        case (Some a)
        obtain idx ptm match where a: "a = (idx, ptm, match)" by (cases a)
        obtain r' where r': "rec residue (new_res_ptms residue_ptms (match_keys match))
                               (drop idx options) = Some r'"
          and rr: "(case r' of Inl e \<Rightarrow> Some (Inl e)
                     | Inr identified \<Rightarrow> Some (Inr ((ptm, match) # identified))) = Some r"
          using True Some a step(2) by (auto simp: bind_eq_Some_conv)
        obtain rest where rest: "r' = Inr rest" "identified = (ptm, match) # rest"
          using rr r by (cases r') auto
        have "identifies residue (new_res_ptms residue_ptms (match_keys match)) (drop idx options) rest"
          using step(1) [OF r'] rest(1) by blast
        then show ?thesis using True Some a rest(2) by (auto intro: identifies.step)
      qed
    qed
  qed
qed

lemma identify_ptms_identifies:
  "identify_ptms residue residue_ptms options = Some (Inr identified)
     \<Longrightarrow> identifies residue residue_ptms options identified"
  using identify_ptms_identifies_aux by blast

lemma identifies_identify_ptms:
  "identifies residue residue_ptms options identified
     \<Longrightarrow> identify_ptms residue residue_ptms options = Some (Inr identified)"
proof (induction rule: identifies.induct)
  case (base residue_ptms options)
  then show ?case by (subst identify_ptms.simps) simp
next
  case (step residue_ptms options idx ptm match identified)
  then show ?case by (subst identify_ptms.simps) simp
qed


lemma identifies_positions:
  "identifies residue residue_ptms options identified
     \<Longrightarrow> \<exists>idxs. chosen_at options identified idxs \<and> sorted idxs"
proof (induction rule: identifies.induct)
  case (base residue_ptms options)
  show ?case by (intro exI [of _ "[]"]) (simp add: chosen_at_def)
next
  case (step residue_ptms options idx ptm match identified)
  obtain k where k: "idx = 0 + k" "k < length options" "fst (options ! k) = ptm"
    "match \<in> set (snd (options ! k))"
    using first_match_Some [OF step(2)] by blast
  then have idx: "idx < length options" "fst (options ! idx) = ptm"
    "match \<in> set (snd (options ! idx))" by simp_all
  obtain idxs where c: "chosen_at (drop idx options) identified idxs" and s: "sorted idxs"
    using step.IH by blast
  let ?idxs = "idx # map (\<lambda>i. idx + i) idxs"
  have "sorted ?idxs" using s by (auto simp: sorted_map intro: sorted_wrt_mono_rel [of _ "(\<le>)"])
  moreover have "chosen_at options ((ptm, match) # identified) ?idxs"
    unfolding chosen_at_def
  proof (intro conjI allI impI)
    show "length ?idxs = length ((ptm, match) # identified)"
      using c by (simp add: chosen_at_def)
  next
    fix j assume j: "j < length ((ptm, match) # identified)"
    show "?idxs ! j < length options"
      using j c idx by (cases j) (auto simp: chosen_at_def)
    show "fst (options ! (?idxs ! j)) = fst (((ptm, match) # identified) ! j)"
      using j c idx by (cases j) (auto simp: chosen_at_def)
    show "snd (((ptm, match) # identified) ! j) \<in> set (snd (options ! (?idxs ! j)))"
      using j c idx by (cases j) (auto simp: chosen_at_def)
  qed
  ultimately show ?case by blast
qed

lemma mset_sorted_options:
  "mset (map fst (sorted_options iter residue res_ptms known_ptms))
     = mset (filter (subgraph_is_isomorphic iter residue) known_ptms)"
proof -
  have "mset (map fst (sorted_options iter residue res_ptms known_ptms))
          = image_mset fst (mset (allowed_ptms iter residue res_ptms known_ptms))"
    by (simp add: sorted_options_def)
  also have "\<dots> = mset (map fst (allowed_ptms iter residue res_ptms known_ptms))"
    by simp
  also have "map fst (allowed_ptms iter residue res_ptms known_ptms)
               = filter (subgraph_is_isomorphic iter residue) known_ptms"
    by (simp add: allowed_ptms_def comp_def)
  finally show ?thesis .
qed

lemma sorted_sorted_options:
  "sorted (map (\<lambda>opt. graph_len (fst opt)) (sorted_options iter residue res_ptms known_ptms))"
  by (simp add: sorted_options_def)


text \<open>
  C9. The candidate list holds exactly the modifications of the library for which
  \<open>subgraph_is_isomorphic\<close> holds on the residue, in ascending order of their number of
  nodes; and the modifications that \<open>identify_ptms\<close> returns were taken at positions of
  that list that never decrease: after accepting a match of the candidate at position
  \<open>idx\<close> the recursion only sees \<open>options[idx:]\<close>.
\<close>

theorem sorted_options_monotonic:
  "mset (map fst (sorted_options iter residue res_ptms known_ptms))
     = mset (filter (subgraph_is_isomorphic iter residue) known_ptms)
   \<and> sorted (map (\<lambda>opt. graph_len (fst opt)) (sorted_options iter residue res_ptms known_ptms))
   \<and> (\<forall>identified.
         identify_ptms residue res_ptms (sorted_options iter residue res_ptms known_ptms)
           = Some (Inr identified)
         \<longrightarrow> (\<exists>idxs. chosen_at (sorted_options iter residue res_ptms known_ptms) identified idxs
                      \<and> sorted idxs))"
  using mset_sorted_options sorted_sorted_options identifies_positions identify_ptms_identifies
  by blast

lemma scenario_A_identified:
  "identify_ptms scenario_A scenario_A_islands
     (sorted_options scenario_A_matcher scenario_A scenario_A_islands KNOWN_PTMS)
     = Some (Inr [(n_term, scenario_A_match)])"
  by code_simp

theorem sorted_options_monotonic_witness:
  "\<exists>idxs. chosen_at (sorted_options scenario_A_matcher scenario_A scenario_A_islands KNOWN_PTMS)
             [(n_term, scenario_A_match)] idxs \<and> sorted idxs"
  using sorted_options_monotonic [of scenario_A_matcher scenario_A scenario_A_islands KNOWN_PTMS]
    scenario_A_identified
  by blast

lemma pairwise_disjoint_nth:
  "pairwise_disjoint As \<Longrightarrow> i < j \<Longrightarrow> j < length As \<Longrightarrow> As ! i \<inter> As ! j = {}"
proof (induction As arbitrary: i j)
  case Nil
  then show ?case by simp
next
  case (Cons A As)
  show ?case
  proof (cases i)
    case 0
    then obtain j' where j': "j = Suc j'" using Cons.prems(2) by (cases j) auto
    then have "As ! j' \<in> set As" using Cons.prems(3) by simp
    then show ?thesis using Cons.prems(1) 0 j' by (auto simp: list_all_iff)
  next
    case (Suc i')
    then obtain j' where j': "j = Suc j'" using Cons.prems(2) by (cases j) auto
    then show ?thesis using Cons.IH [of i' j'] Cons.prems Suc by simp
  qed
qed

lemma remaining_empty:
  "\<not> list_ex (\<lambda>res_ptm. fst res_ptm \<noteq> {}) residue_ptms \<Longrightarrow> remaining residue_ptms = {}"
  by (auto simp: remaining_def list_ex_iff)

lemma remaining_nonempty:
  "list_ex (\<lambda>res_ptm. fst res_ptm \<noteq> {}) residue_ptms \<Longrightarrow> remaining residue_ptms \<noteq> {}"
  by (fastforce simp: remaining_def list_ex_iff)

lemma remaining_new_res_ptms:
  "remaining (new_res_ptms residue_ptms matching) = remaining residue_ptms - matching"
  by (auto simp: remaining_def new_res_ptms_def)

lemma identifies_cover:
  assumes "identifies residue residue_ptms options identified"
    and "remaining residue_ptms \<inter> non_PTM_atoms residue = {}"
  shows "(\<forall>m \<in> set (map snd identified).
            match_keys m \<subseteq> non_PTM_atoms residue \<union> remaining residue_ptms)
         \<and> \<Union> (set (map (\<lambda>x. covered residue (snd x)) identified)) = remaining residue_ptms
         \<and> pairwise_disjoint (map (\<lambda>x. covered residue (snd x)) identified)"
  using assms
proof (induction rule: identifies.induct)
  case (base residue_ptms options)
  then show ?case by (simp add: remaining_empty)
next
  case (step residue_ptms options idx ptm match identified)
  let ?R = "remaining residue_ptms"
  let ?K = "match_keys match"
  let ?NF = "non_PTM_atoms residue"
  have K: "?K \<subseteq> ?NF \<union> ?R"
    using first_match_Some [OF step(2)] by (auto simp: available_atoms_def)
  have R': "remaining (new_res_ptms residue_ptms ?K) = ?R - ?K"
    by (rule remaining_new_res_ptms)
  have "remaining (new_res_ptms residue_ptms ?K) \<inter> ?NF = {}"
    using step.prems by (auto simp: R')
  from step.IH [OF this] have
    keys: "\<forall>m \<in> set (map snd identified). match_keys m \<subseteq> ?NF \<union> (?R - ?K)"
    and un: "\<Union> (set (map (\<lambda>x. covered residue (snd x)) identified)) = ?R - ?K"
    and dj: "pairwise_disjoint (map (\<lambda>x. covered residue (snd x)) identified)"
    by (simp_all add: R')
  have cov: "covered residue match = ?R \<inter> ?K"
    using K step.prems by (auto simp: covered_def)
  have 1: "\<forall>m \<in> set (map snd ((ptm, match) # identified)). match_keys m \<subseteq> ?NF \<union> ?R"
    using K keys by auto
  have 2: "\<Union> (set (map (\<lambda>x. covered residue (snd x)) ((ptm, match) # identified))) = ?R"
    using un cov by auto
  have "list_all (\<lambda>B. covered residue match \<inter> B = {}) (map (\<lambda>x. covered residue (snd x)) identified)"
    unfolding list_all_iff
  proof
    fix B assume "B \<in> set (map (\<lambda>x. covered residue (snd x)) identified)"
    then have "B \<subseteq> ?R - ?K" using un by blast
    then show "covered residue match \<inter> B = {}" using cov by blast
  qed
  then have 3: "pairwise_disjoint (map (\<lambda>x. covered residue (snd x)) ((ptm, match) # identified))"
    using dj by simp
  show ?case using 1 2 3 by blast
qed


text \<open>
  C1 fails as stated: the image of a match holds the anchors and the other non-PTM atoms
  that the reference modification maps, which are available to every match. What holds
  (C1 amended): when \<open>identify_ptms\<close> returns, every match lies within the non-PTM atoms of
  the residue and the atoms of the islands; the parts of the matches outside the non-PTM
  atoms are pairwise disjoint, and their union is exactly the set of atoms of the islands
  (the islands hold no non-PTM atom of the residue).
\<close>

theorem identify_ptms_covers:
  assumes "identify_ptms residue residue_ptms options = Some (Inr identified)"
    and "remaining residue_ptms \<inter> non_PTM_atoms residue = {}"
  shows "(\<forall>k < length identified.
            match_keys (snd (identified ! k)) \<subseteq> non_PTM_atoms residue \<union> remaining residue_ptms)
         \<and> (\<Union>k < length identified. covered residue (snd (identified ! k)))
             = remaining residue_ptms
         \<and> (\<forall>i j. i < j \<and> j < length identified
               \<longrightarrow> covered residue (snd (identified ! i)) \<inter> covered residue (snd (identified ! j)) = {})"
proof -
  have ids: "identifies residue residue_ptms options identified"
    using assms(1) by (rule identify_ptms_identifies)
  note c = identifies_cover [OF ids assms(2)]
  let ?As = "map (\<lambda>x. covered residue (snd x)) identified"
  have 1: "\<forall>k < length identified.
            match_keys (snd (identified ! k)) \<subseteq> non_PTM_atoms residue \<union> remaining residue_ptms"
    using c by simp
  have "(\<Union>k < length identified. covered residue (snd (identified ! k))) = \<Union> (set ?As)"
  proof (intro equalityI subsetI)
    fix x assume "x \<in> (\<Union>k < length identified. covered residue (snd (identified ! k)))"
    then obtain k where "k < length identified" "x \<in> covered residue (snd (identified ! k))"
      by auto
    then show "x \<in> \<Union> (set ?As)" using nth_mem by force
  next
    fix x assume "x \<in> \<Union> (set ?As)"
    then obtain y where "y \<in> set identified" "x \<in> covered residue (snd y)" by auto
    moreover then obtain k where "k < length identified" "identified ! k = y"
      by (auto simp: in_set_conv_nth)
    ultimately show "x \<in> (\<Union>k < length identified. covered residue (snd (identified ! k)))"
      by auto
  qed
  then have 2: "(\<Union>k < length identified. covered residue (snd (identified ! k)))
                  = remaining residue_ptms"
    using c by simp
  have 3: "covered residue (snd (identified ! i)) \<inter> covered residue (snd (identified ! j)) = {}"
    if "i < j \<and> j < length identified" for i j
    using pairwise_disjoint_nth [of ?As i j] c that by simp
  show ?thesis using 1 2 3 by blast
qed

lemma scenario_A_located:
  "find_PTM_atoms Min scenario_A = Some (Inr scenario_A_islands)"
  unfolding scenario_A_islands_def by code_simp

theorem identify_ptms_covers_witness:
  "(\<Union>k < length [(n_term, scenario_A_match)].
       covered scenario_A (snd ([(n_term, scenario_A_match)] ! k)))
     = remaining scenario_A_islands"
proof -
  have "remaining scenario_A_islands \<inter> non_PTM_atoms scenario_A = {}"
    by (simp add: remaining_def scenario_A_islands_def non_PTM_atoms_def scenario_A_def
        node_idxs_def is_PTM_atom_def get_PTM_atom_def atom_def)
  from identify_ptms_covers [OF scenario_A_identified this] show ?thesis by blast
qed

theorem identify_ptms_image_counterexample:
  "identify_ptms scenario_A scenario_A_islands
     (sorted_options scenario_A_matcher scenario_A scenario_A_islands KNOWN_PTMS)
     = Some (Inr [(n_term, scenario_A_match)])
   \<and> remaining scenario_A_islands = PTM_atom_set scenario_A
   \<and> (\<Union>(ptm, match) \<in> set [(n_term, scenario_A_match)]. match_keys match)
       \<noteq> PTM_atom_set scenario_A"
proof -
  have "PTM_atom_set scenario_A = {2, 3}"
    by (auto simp: PTM_atom_set_def scenario_A_def node_idxs_def is_PTM_atom_def
        get_PTM_atom_def atom_def)
  moreover have "remaining scenario_A_islands = {2, 3}"
    by (auto simp: remaining_def scenario_A_islands_def)
  moreover have "(0::nat) \<in> match_keys scenario_A_match"
    by (simp add: match_keys_def scenario_A_match_def)
  ultimately show ?thesis using scenario_A_identified by auto
qed

lemma first_match_None_ex:
  "first_match available options idx0 = None \<longleftrightarrow>
     \<not> list_ex (\<lambda>opt. list_ex (\<lambda>match. match_keys match \<subseteq> available) (snd opt)) options"
  by (simp add: first_match_None list_ex_iff)

lemma identify_ptms_dead_end_aux:
  "identify_ptms residue residue_ptms options = Some r
     \<Longrightarrow> r = Inl KeyError \<longrightarrow> dead_end residue residue_ptms options"
proof (induction rule: identify_ptms_induct)
  case (step rec residue residue_ptms options r)
  show ?case
  proof
    assume r: "r = Inl KeyError"
    show "dead_end residue residue_ptms options"
    proof (cases "list_ex (\<lambda>res_ptm. fst res_ptm \<noteq> {}) residue_ptms")
      case False
      then show ?thesis using step(2) r by simp
    next
      case True
      show ?thesis
      proof (cases "first_match (available_atoms residue residue_ptms) options 0")
        case None
        then show ?thesis using True by (auto simp: first_match_None_ex intro: dead_end.exhausted)
      next
        case (Some a)
        obtain idx ptm match where a: "a = (idx, ptm, match)" by (cases a)
        obtain r' where r': "rec residue (new_res_ptms residue_ptms (match_keys match))
                               (drop idx options) = Some r'"
          and rr: "(case r' of Inl e \<Rightarrow> Some (Inl e)
                     | Inr identified \<Rightarrow> Some (Inr ((ptm, match) # identified))) = Some r"
          using True Some a step(2) by (auto simp: bind_eq_Some_conv)
        have "r' = Inl KeyError" using rr r by (cases r') auto
        then have "dead_end residue (new_res_ptms residue_ptms (match_keys match)) (drop idx options)"
          using step(1) [OF r'] by blast
        then show ?thesis using True Some a by (auto intro: dead_end.accepted)
      qed
    qed
  qed
qed

lemma dead_end_identify_ptms:
  "dead_end residue residue_ptms options
     \<Longrightarrow> identify_ptms residue residue_ptms options = Some (Inl KeyError)"
proof (induction rule: dead_end.induct)
  case (exhausted residue_ptms options)
  then have "first_match (available_atoms residue residue_ptms) options 0 = None"
    by (simp add: first_match_None_ex)
  then show ?case using exhausted(1) by (subst identify_ptms.simps) simp
next
  case (accepted residue_ptms options idx ptm match)
  then show ?case by (subst identify_ptms.simps) simp
qed

lemma identify_ptms_returns:
  assumes progress: "\<forall>opt \<in> set options. \<forall>match \<in> set (snd opt).
                       \<not> match_keys match \<subseteq> non_PTM_atoms residue"
    and "finite (remaining residue_ptms)"
  shows "\<exists>r. identify_ptms residue residue_ptms options = Some r"
  using assms
proof (induction "card (remaining residue_ptms)" arbitrary: residue_ptms options rule: less_induct)
  case less
  show ?case
  proof (cases "list_ex (\<lambda>res_ptm. fst res_ptm \<noteq> {}) residue_ptms")
    case False
    then show ?thesis by (subst identify_ptms.simps) simp
  next
    case True
    show ?thesis
    proof (cases "first_match (available_atoms residue residue_ptms) options 0")
      case None
      then show ?thesis using True by (subst identify_ptms.simps) simp
    next
      case (Some a)
      obtain idx ptm match where a: "a = (idx, ptm, match)" by (cases a)
      obtain k where k: "k < length options" "match \<in> set (snd (options ! k))"
        "match_keys match \<subseteq> available_atoms residue residue_ptms"
        using first_match_Some [of _ options 0 idx ptm match] Some a by auto
      have "\<not> match_keys match \<subseteq> non_PTM_atoms residue"
        using less.prems(1) k(1,2) nth_mem by blast
      then obtain x where x: "x \<in> match_keys match" "x \<in> remaining residue_ptms"
        using k(3) by (auto simp: available_atoms_def)
      let ?new = "new_res_ptms residue_ptms (match_keys match)"
      have "remaining ?new \<subset> remaining residue_ptms"
        using x by (auto simp: remaining_new_res_ptms)
      then have c: "card (remaining ?new) < card (remaining residue_ptms)"
        using less.prems(2) by (simp add: psubset_card_mono)
      have f: "finite (remaining ?new)"
        using less.prems(2) by (simp add: remaining_new_res_ptms)
      have p: "\<forall>opt \<in> set (drop idx options). \<forall>match \<in> set (snd opt).
                 \<not> match_keys match \<subseteq> non_PTM_atoms residue"
        using less.prems(1) by (meson in_set_dropD)
      obtain r' where r': "identify_ptms residue ?new (drop idx options) = Some r'"
        using less.hyps [OF c p f] by blast
      have "identify_ptms residue residue_ptms options
              = Option.bind (identify_ptms residue ?new (drop idx options))
                  (\<lambda>r. case r of Inl e \<Rightarrow> Some (Inl e)
                       | Inr identified \<Rightarrow> Some (Inr ((ptm, match) # identified)))"
        using True Some a by (subst identify_ptms.simps) simp
      then show ?thesis by (cases r') (simp_all add: r')
    qed
  qed
qed

lemma identifies_exact_cover:
  assumes "identifies residue residue_ptms options identified"
    and "remaining residue_ptms \<inter> non_PTM_atoms residue = {}"
  shows "exact_cover residue residue_ptms options identified"
proof -
  obtain idxs where c: "chosen_at options identified idxs"
    using identifies_positions [OF assms(1)] by blast
  have "list_all (\<lambda>(ptm, match). list_ex (\<lambda>opt. fst opt = ptm \<and> match \<in> set (snd opt)) options)
          identified"
    unfolding list_all_iff
  proof
    fix x assume "x \<in> set identified"
    then obtain k where k: "k < length identified" "identified ! k = x"
      by (auto simp: in_set_conv_nth)
    then have "idxs ! k < length options" "fst (options ! (idxs ! k)) = fst x"
      "snd x \<in> set (snd (options ! (idxs ! k)))"
      using c by (auto simp: chosen_at_def)
    then show "case x of (ptm, match) \<Rightarrow>
                 list_ex (\<lambda>opt. fst opt = ptm \<and> match \<in> set (snd opt)) options"
      by (cases x) (auto simp: list_ex_iff intro!: bexI [of _ "options ! (idxs ! k)"])
  qed
  then show ?thesis
    using identifies_cover [OF assms] by (simp add: exact_cover_def)
qed


text \<open>
  C2 fails as stated: the search accepts the first available match of the first option
  that has one and never revises it, so \<open>KeyError\<close> is also raised for groups that a
  combination of the options covers. What holds (C2 amended): \<open>identify_ptms\<close> raises
  \<open>KeyError\<close> exactly when the search reaches a dead end, that is when atoms remain and
  no option has a match within the available atoms, at once or after accepting the first
  available matches. When no combination of matches of the options exactly covers the
  atoms of the islands, the error is raised, provided the islands are finite sets that hold
  no non-PTM atom of the residue and every match of an option has an atom that is not a
  non-PTM atom of the residue (so that every accepted match consumes an atom).
\<close>

theorem identify_ptms_KeyError:
  "(identify_ptms residue residue_ptms options = Some (Inl KeyError)
      \<longleftrightarrow> dead_end residue residue_ptms options)
   \<and> (finite (remaining residue_ptms)
        \<and> remaining residue_ptms \<inter> non_PTM_atoms residue = {}
        \<and> (\<forall>opt \<in> set options. \<forall>match \<in> set (snd opt).
              \<not> match_keys match \<subseteq> non_PTM_atoms residue)
        \<and> (\<nexists>identified. exact_cover residue residue_ptms options identified)
      \<longrightarrow> identify_ptms residue residue_ptms options = Some (Inl KeyError))"
proof (intro conjI impI)
  show "identify_ptms residue residue_ptms options = Some (Inl KeyError)
          \<longleftrightarrow> dead_end residue residue_ptms options"
    using identify_ptms_dead_end_aux dead_end_identify_ptms by blast
next
  assume a: "finite (remaining residue_ptms)
        \<and> remaining residue_ptms \<inter> non_PTM_atoms residue = {}
        \<and> (\<forall>opt \<in> set options. \<forall>match \<in> set (snd opt).
              \<not> match_keys match \<subseteq> non_PTM_atoms residue)
        \<and> (\<nexists>identified. exact_cover residue residue_ptms options identified)"
  then obtain r where r: "identify_ptms residue residue_ptms options = Some r"
    using identify_ptms_returns [of options residue residue_ptms] by blast
  show "identify_ptms residue residue_ptms options = Some (Inl KeyError)"
  proof (cases r)
    case (Inl e)
    then show ?thesis using r by (cases e) simp
  next
    case (Inr identified)
    then have "identifies residue residue_ptms options identified"
      using r identify_ptms_identifies by blast
    then have "exact_cover residue residue_ptms options identified"
      using a identifies_exact_cover by blast
    then show ?thesis using a by blast
  qed
qed

lemma two_branches_located:
  "find_PTM_atoms Min two_branches = Some (Inr two_branches_islands)"
  unfolding two_branches_islands_def by code_simp

lemma two_branches_sorted_options:
  "sorted_options two_branches_matcher two_branches two_branches_islands [ptm_HO, ptm_H]
     = two_branches_options"
  by (simp add: sorted_options_def allowed_ptms_def subgraph_is_isomorphic_def
      two_branches_matcher_def two_branches_options_def ptm_H_def ptm_HO_def graph_len_def)

lemma two_branches_KeyError:
  "identify_ptms two_branches two_branches_islands two_branches_options = Some (Inl KeyError)"
  by code_simp

lemma two_branches_non_PTM_atoms: "non_PTM_atoms two_branches = {0}"
  by (auto simp: non_PTM_atoms_def two_branches_def node_idxs_def is_PTM_atom_def
      get_PTM_atom_def atom_def)

lemma two_branches_remaining: "remaining two_branches_islands = {1, 2}"
  by (auto simp: remaining_def two_branches_islands_def)

theorem identify_ptms_greedy_counterexample:
  "exact_cover two_branches two_branches_islands two_branches_options
     [(ptm_HO, [(0, 0), (1, 1), (2, 2)])]
   \<and> identify_ptms two_branches two_branches_islands two_branches_options = Some (Inl KeyError)"
proof -
  have "covered two_branches [(0, 0), (1, 1), (2, 2)] = {1, 2}"
    by (auto simp: covered_def match_keys_def two_branches_non_PTM_atoms)
  then have "exact_cover two_branches two_branches_islands two_branches_options
     [(ptm_HO, [(0, 0), (1, 1), (2, 2)])]"
    by (simp add: exact_cover_def two_branches_remaining two_branches_options_def)
  then show ?thesis using two_branches_KeyError by simp
qed

theorem identify_ptms_KeyError_witness:
  "dead_end two_branches two_branches_islands two_branches_options
   \<and> identify_ptms two_branches two_branches_islands [(ptm_H, [[(0, 0), (1, 1)]])]
       = Some (Inl KeyError)"
proof -
  let ?opts = "[(ptm_H, [[(0, 0), (1, 1)]])]"
  have 1: "dead_end two_branches two_branches_islands two_branches_options"
    using identify_ptms_KeyError [of two_branches two_branches_islands two_branches_options]
      two_branches_KeyError by blast
  have fin: "finite (remaining two_branches_islands)"
    by (simp add: two_branches_remaining)
  have dis: "remaining two_branches_islands \<inter> non_PTM_atoms two_branches = {}"
    by (simp add: two_branches_remaining two_branches_non_PTM_atoms)
  have prog: "\<forall>opt \<in> set ?opts. \<forall>match \<in> set (snd opt).
                \<not> match_keys match \<subseteq> non_PTM_atoms two_branches"
    by (simp add: match_keys_def two_branches_non_PTM_atoms)
  have none: "\<nexists>identified. exact_cover two_branches two_branches_islands ?opts identified"
  proof
    assume "\<exists>identified. exact_cover two_branches two_branches_islands ?opts identified"
    then obtain identified where e: "exact_cover two_branches two_branches_islands ?opts identified"
      by blast
    have "\<forall>x \<in> set identified. snd x = [(0, 0), (1, 1)]"
      using e by (auto simp: exact_cover_def list_all_iff)
    then have "\<forall>x \<in> set identified. covered two_branches (snd x) \<subseteq> {1}"
      by (auto simp: covered_def match_keys_def two_branches_non_PTM_atoms)
    then have "\<Union> (set (map (\<lambda>x. covered two_branches (snd x)) identified)) \<subseteq> {1}"
      by auto
    moreover have "\<Union> (set (map (\<lambda>x. covered two_branches (snd x)) identified)) = {1, 2}"
      using e by (simp add: exact_cover_def two_branches_remaining)
    ultimately show False by auto
  qed
  have 2: "identify_ptms two_branches two_branches_islands ?opts = Some (Inl KeyError)"
    using identify_ptms_KeyError [of two_branches two_branches_islands ?opts] fin dis prog none
    by blast
  show ?thesis using 1 2 by simp
qed

subsection \<open>The matcher\<close>

lemma has_edge_sym: "has_edge G u v \<longleftrightarrow> has_edge G v u"
  by (auto simp: has_edge_def)

lemma completions_Nil: "completions host pattern [] mapping = {set mapping}"
  by (auto simp: completions_def)

lemma completions_cong_set:
  "set todo = set todo' \<Longrightarrow> completions host pattern todo mapping = completions host pattern todo' mapping"
  by (simp add: completions_def)

lemma fst_set_refine: "fst ` set (refine host pattern p h todo) = fst ` set todo"
  by (force simp: refine_def)

lemma in_refine:
  "(q, cs') \<in> set (refine host pattern p h todo) \<longleftrightarrow>
     (\<exists>cs. (q, cs) \<in> set todo \<and>
        cs' = filter (\<lambda>h'. h' \<noteq> h \<and> (has_edge pattern p q \<longrightarrow> has_edge host h h')) cs)"
  by (auto simp: refine_def)

lemma completions_step_sub:
  assumes d: "distinct (map fst ((p, cs) # todo))"
    and M: "M \<in> completions host pattern ((p, cs) # todo) mapping"
  shows "\<exists>h \<in> set cs. M \<in> completions host pattern (refine host pattern p h todo) ((h, p) # mapping)"
proof -
  let ?Q = "fst ` set todo"
  obtain f where
    M_eq: "M = set mapping \<union> (\<lambda>q. (f q, q)) ` fst ` set ((p, cs) # todo)"
    and f_cs: "\<forall>(q, cs) \<in> set ((p, cs) # todo). f q \<in> set cs"
    and f_inj: "inj_on f (fst ` set ((p, cs) # todo))"
    and f_edge: "\<forall>q \<in> fst ` set ((p, cs) # todo). \<forall>q' \<in> fst ` set ((p, cs) # todo).
           has_edge pattern q q' \<longrightarrow> has_edge host (f q) (f q')"
    using M unfolding completions_def by blast
  have p_notin: "p \<notin> ?Q" using d by (auto simp: image_iff)
  have fp: "f p \<in> set cs" using f_cs by simp
  have 1: "\<forall>(q, cs') \<in> set (refine host pattern p (f p) todo). f q \<in> set cs'"
  proof (clarify)
    fix q cs' assume "(q, cs') \<in> set (refine host pattern p (f p) todo)"
    then obtain cs0 where q: "(q, cs0) \<in> set todo"
      and cs': "cs' = filter (\<lambda>h'. h' \<noteq> f p \<and> (has_edge pattern p q \<longrightarrow> has_edge host (f p) h')) cs0"
      by (auto simp: in_refine)
    have qQ: "q \<in> ?Q" using q by force
    then have "q \<noteq> p" using p_notin by blast
    then have "f q \<noteq> f p" using f_inj qQ by (auto simp: inj_on_def)
    moreover have "f q \<in> set cs0" using f_cs q by auto
    moreover have "has_edge pattern p q \<longrightarrow> has_edge host (f p) (f q)"
    proof -
      have "p \<in> fst ` set ((p, cs) # todo)" "q \<in> fst ` set ((p, cs) # todo)"
        using qQ by auto
      then show ?thesis using f_edge by blast
    qed
    ultimately show "f q \<in> set cs'" by (simp add: cs')
  qed
  have 2: "inj_on f (fst ` set (refine host pattern p (f p) todo))"
    using f_inj by (auto simp: fst_set_refine inj_on_def)
  have 3: "\<forall>q \<in> fst ` set (refine host pattern p (f p) todo).
             \<forall>q' \<in> fst ` set (refine host pattern p (f p) todo).
               has_edge pattern q q' \<longrightarrow> has_edge host (f q) (f q')"
    using f_edge by (simp add: fst_set_refine)
  have 4: "M = set ((f p, p) # mapping) \<union> (\<lambda>q. (f q, q)) ` fst ` set (refine host pattern p (f p) todo)"
    by (auto simp: M_eq fst_set_refine)
  have "M \<in> completions host pattern (refine host pattern p (f p) todo) ((f p, p) # mapping)"
    unfolding completions_def using 1 2 3 4 by blast
  then show ?thesis using fp by blast
qed

lemma completions_step_sup:
  assumes d: "distinct (map fst ((p, cs) # todo))"
    and ok: "self_ok host pattern ((p, cs) # todo)"
    and h: "h \<in> set cs"
    and M: "M \<in> completions host pattern (refine host pattern p h todo) ((h, p) # mapping)"
  shows "M \<in> completions host pattern ((p, cs) # todo) mapping"
proof -
  let ?Q = "fst ` set todo"
  obtain f where
    M_eq: "M = set ((h, p) # mapping) \<union> (\<lambda>q. (f q, q)) ` ?Q"
    and f_cs: "\<forall>(q, cs') \<in> set (refine host pattern p h todo). f q \<in> set cs'"
    and f_inj: "inj_on f ?Q"
    and f_edge: "\<forall>q \<in> ?Q. \<forall>q' \<in> ?Q. has_edge pattern q q' \<longrightarrow> has_edge host (f q) (f q')"
    using M unfolding completions_def fst_set_refine by blast
  have p_notin: "p \<notin> ?Q" using d by (auto simp: image_iff)
  let ?g = "f(p := h)"
  have g_Q: "?g q = f q" if "q \<in> ?Q" for q using that p_notin by auto
  have in_todo: "f q \<in> set cs0 \<and> f q \<noteq> h \<and> (has_edge pattern p q \<longrightarrow> has_edge host h (f q))"
    if "(q, cs0) \<in> set todo" for q cs0
  proof -
    have "(q, filter (\<lambda>h'. h' \<noteq> h \<and> (has_edge pattern p q \<longrightarrow> has_edge host h h')) cs0)
            \<in> set (refine host pattern p h todo)"
      using that by (auto simp: in_refine)
    then show ?thesis using f_cs by fastforce
  qed
  have 1: "\<forall>(q, cs') \<in> set ((p, cs) # todo). ?g q \<in> set cs'"
  proof (clarify)
    fix q cs' assume a: "(q, cs') \<in> set ((p, cs) # todo)"
    show "?g q \<in> set cs'"
    proof (cases "q = p")
      case True
      then have "cs' = cs" using a d by (auto simp: image_iff)
      then show ?thesis using True h by simp
    next
      case False
      then have "(q, cs') \<in> set todo" using a by simp
      then show ?thesis using in_todo False by simp
    qed
  qed
  have 2: "inj_on ?g (fst ` set ((p, cs) # todo))"
  proof -
    have "h \<notin> f ` ?Q" using in_todo by fastforce
    then have "inj_on ?g (insert p ?Q)"
      using f_inj p_notin by (auto simp: inj_on_def)
    then show ?thesis by simp
  qed
  have self: "has_edge pattern p p \<longrightarrow> has_edge host h h"
    using ok h by (auto simp: self_ok_def)
  have 3: "\<forall>q \<in> fst ` set ((p, cs) # todo). \<forall>q' \<in> fst ` set ((p, cs) # todo).
             has_edge pattern q q' \<longrightarrow> has_edge host (?g q) (?g q')"
  proof (intro ballI impI)
    fix q q' assume q: "q \<in> fst ` set ((p, cs) # todo)" and q': "q' \<in> fst ` set ((p, cs) # todo)"
      and e: "has_edge pattern q q'"
    consider "q = p" "q' = p" | "q = p" "q' \<in> ?Q" | "q \<in> ?Q" "q' = p" | "q \<in> ?Q" "q' \<in> ?Q"
      using q q' by auto
    then show "has_edge host (?g q) (?g q')"
    proof cases
      case 1
      then show ?thesis using self e by simp
    next
      case 2
      then obtain cs0 where "(q', cs0) \<in> set todo" by auto
      then have "has_edge host h (f q')" using in_todo e 2 by blast
      then show ?thesis using 2 g_Q by simp
    next
      case 3
      then obtain cs0 where "(q, cs0) \<in> set todo" by auto
      moreover have "has_edge pattern p q" using e 3 has_edge_sym by blast
      ultimately have "has_edge host h (f q)" using in_todo by blast
      then have "has_edge host (f q) h" using has_edge_sym by blast
      then show ?thesis using 3 g_Q by simp
    next
      case 4
      then have "has_edge host (f q) (f q')" using f_edge e by blast
      then show ?thesis using 4 g_Q by simp
    qed
  qed
  have 4: "M = set mapping \<union> (\<lambda>q. (?g q, q)) ` fst ` set ((p, cs) # todo)"
  proof -
    have "(\<lambda>q. (?g q, q)) ` ?Q = (\<lambda>q. (f q, q)) ` ?Q"
      using g_Q by (intro image_cong) auto
    then show ?thesis by (auto simp: M_eq)
  qed
  show ?thesis unfolding completions_def using 1 2 3 4 by blast
qed

lemma set_most_constrained_first: "set (most_constrained_first todo) = set todo"
  by (simp add: most_constrained_first_def)

lemma distinct_fst_most_constrained_first:
  "distinct (map fst (most_constrained_first todo)) = distinct (map fst todo)"
proof -
  have "mset (map fst (most_constrained_first todo)) = mset (map fst todo)"
    by (simp add: most_constrained_first_def)
  then show ?thesis by (metis distinct_count_atmost_1 set_mset_mset)
qed

lemma distinct_fst_refine: "distinct (map fst (refine host pattern p h todo)) = distinct (map fst todo)"
proof -
  have "map fst (refine host pattern p h todo) = map fst todo"
    by (auto simp: refine_def)
  then show ?thesis by simp
qed

lemma self_ok_refine:
  "self_ok host pattern todo \<Longrightarrow> self_ok host pattern (refine host pattern p h todo)"
  by (fastforce simp: self_ok_def in_refine)

lemma self_ok_cong_set: "set todo = set todo' \<Longrightarrow> self_ok host pattern todo = self_ok host pattern todo'"
  by (simp add: self_ok_def)

lemma search_completions:
  "distinct (map fst todo) \<Longrightarrow> self_ok host pattern todo
     \<Longrightarrow> set (map set (search host pattern todo mapping)) = completions host pattern todo mapping"
proof (induction host pattern todo mapping rule: search.induct)
  case (1 host pattern mapping)
  show ?case by (simp add: completions_Nil)
next
  case (2 host pattern p cs todo mapping)
  let ?next = "\<lambda>h. most_constrained_first (refine host pattern p h todo)"
  have d: "distinct (map fst todo)" using "2.prems"(1) by simp
  have ok: "self_ok host pattern todo" using "2.prems"(2) by (auto simp: self_ok_def)
  have ih: "set (map set (search host pattern (?next h) ((h, p) # mapping)))
              = completions host pattern (refine host pattern p h todo) ((h, p) # mapping)"
    if "h \<in> set cs" for h
  proof -
    have "distinct (map fst (?next h))"
      using d by (simp add: distinct_fst_most_constrained_first distinct_fst_refine)
    moreover have "self_ok host pattern (?next h)"
      using self_ok_refine [OF ok]
        self_ok_cong_set [OF set_most_constrained_first] by blast
    ultimately have "set (map set (search host pattern (?next h) ((h, p) # mapping)))
              = completions host pattern (?next h) ((h, p) # mapping)"
      using "2.IH" that by blast
    then show ?thesis
      using completions_cong_set [OF set_most_constrained_first] by blast
  qed
  have "set (map set (search host pattern ((p, cs) # todo) mapping))
          = (\<Union>h \<in> set cs. set (map set (search host pattern (?next h) ((h, p) # mapping))))"
    by auto
  also have "\<dots> = (\<Union>h \<in> set cs. completions host pattern (refine host pattern p h todo) ((h, p) # mapping))"
    using ih by auto
  also have "\<dots> = completions host pattern ((p, cs) # todo) mapping"
  proof (intro equalityI subsetI)
    fix M assume "M \<in> (\<Union>h \<in> set cs. completions host pattern (refine host pattern p h todo) ((h, p) # mapping))"
    then obtain h where "h \<in> set cs"
      "M \<in> completions host pattern (refine host pattern p h todo) ((h, p) # mapping)"
      by blast
    then show "M \<in> completions host pattern ((p, cs) # todo) mapping"
      by (rule completions_step_sup [OF "2.prems"])
  next
    fix M assume "M \<in> completions host pattern ((p, cs) # todo) mapping"
    from completions_step_sub [OF "2.prems"(1) this]
    show "M \<in> (\<Union>h \<in> set cs. completions host pattern (refine host pattern p h todo) ((h, p) # mapping))"
      by blast
  qed
  finally show ?case .
qed

text \<open>The injective assignments, as sets of pairs.\<close>

lemma assignments_sets:
  "distinct ps \<Longrightarrow>
     set (map set (assignments ps hs))
       = {(\<lambda>q. (f q, q)) ` set ps | f. (\<forall>q \<in> set ps. f q \<in> set hs) \<and> inj_on f (set ps)}"
proof (induction ps arbitrary: hs)
  case Nil
  show ?case by auto
next
  case (Cons p ps)
  have d: "distinct ps" and p_notin: "p \<notin> set ps" using Cons.prems by simp_all
  have ih: "set (map set (assignments ps hs'))
       = {(\<lambda>q. (f q, q)) ` set ps | f. (\<forall>q \<in> set ps. f q \<in> set hs') \<and> inj_on f (set ps)}" for hs'
    using Cons.IH [OF d] .
  show ?case
  proof (intro equalityI subsetI)
    fix M assume "M \<in> set (map set (assignments (p # ps) hs))"
    then obtain h m where h: "h \<in> set hs" and m: "m \<in> set (assignments ps (removeAll h hs))"
      and M: "M = insert (h, p) (set m)"
      by auto
    have "set m \<in> set (map set (assignments ps (removeAll h hs)))" using m by simp
    then obtain f where f: "set m = (\<lambda>q. (f q, q)) ` set ps"
      "\<forall>q \<in> set ps. f q \<in> set (removeAll h hs)" "inj_on f (set ps)"
      unfolding ih by blast
    let ?g = "f(p := h)"
    have g: "?g q = f q" if "q \<in> set ps" for q using that p_notin by auto
    have "(\<lambda>q. (?g q, q)) ` set ps = (\<lambda>q. (f q, q)) ` set ps"
      using g by (intro image_cong) auto
    then have 1: "M = (\<lambda>q. (?g q, q)) ` set (p # ps)" using M f(1) by auto
    have 2: "\<forall>q \<in> set (p # ps). ?g q \<in> set hs" using h f(2) by auto
    have "h \<notin> f ` set ps" using f(2) by auto
    then have 3: "inj_on ?g (set (p # ps))" using f(3) p_notin by (auto simp: inj_on_def)
    show "M \<in> {(\<lambda>q. (f q, q)) ` set (p # ps) | f.
                 (\<forall>q \<in> set (p # ps). f q \<in> set hs) \<and> inj_on f (set (p # ps))}"
      using 1 2 3 by blast
  next
    fix M assume "M \<in> {(\<lambda>q. (f q, q)) ` set (p # ps) | f.
                 (\<forall>q \<in> set (p # ps). f q \<in> set hs) \<and> inj_on f (set (p # ps))}"
    then obtain f where M: "M = (\<lambda>q. (f q, q)) ` set (p # ps)"
      and f: "\<forall>q \<in> set (p # ps). f q \<in> set hs" "inj_on f (set (p # ps))"
      by blast
    have "\<forall>q \<in> set ps. f q \<in> set (removeAll (f p) hs)"
      using f p_notin by (auto simp: inj_on_def)
    moreover have "inj_on f (set ps)" using f(2) by (auto simp: inj_on_def)
    ultimately have "(\<lambda>q. (f q, q)) ` set ps \<in> set (map set (assignments ps (removeAll (f p) hs)))"
      unfolding ih by blast
    then obtain m where m: "m \<in> set (assignments ps (removeAll (f p) hs))"
      "set m = (\<lambda>q. (f q, q)) ` set ps"
      by auto
    have "(f p, p) # m \<in> set (assignments (p # ps) hs)"
      using m(1) f(1) by auto
    then have "set ((f p, p) # m) \<in> set ` set (assignments (p # ps) hs)"
      by (rule imageI)
    moreover have "set ((f p, p) # m) = M" using m(2) M by auto
    ultimately show "M \<in> set (map set (assignments (p # ps) hs))"
      by simp
  qed
qed

lemma is_match_set: "is_match node_match host pattern m = match_set node_match host pattern (set m)"
  by (simp add: is_match_def match_set_def list_all_iff)

lemma match_set_image:
  "match_set node_match host pattern ((\<lambda>q. (f q, q)) ` P) \<longleftrightarrow>
     (\<forall>q \<in> P. compatible node_match host pattern (f q) q) \<and>
     (\<forall>(u, v) \<in> set (edges pattern). u \<in> P \<and> v \<in> P \<longrightarrow> has_edge host (f u) (f v))"
  unfolding match_set_def by fastforce

lemma edge_conditions:
  "(\<forall>q \<in> P. \<forall>q' \<in> P. has_edge pattern q q' \<longrightarrow> has_edge host (f q) (f q'))
     \<longleftrightarrow> (\<forall>(u, v) \<in> set (edges pattern). u \<in> P \<and> v \<in> P \<longrightarrow> has_edge host (f u) (f v))"
proof
  assume a: "\<forall>q \<in> P. \<forall>q' \<in> P. has_edge pattern q q' \<longrightarrow> has_edge host (f q) (f q')"
  show "\<forall>(u, v) \<in> set (edges pattern). u \<in> P \<and> v \<in> P \<longrightarrow> has_edge host (f u) (f v)"
  proof (clarify)
    fix u v assume "(u, v) \<in> set (edges pattern)" "u \<in> P" "v \<in> P"
    moreover then have "has_edge pattern u v" by (simp add: has_edge_def)
    ultimately show "has_edge host (f u) (f v)" using a by blast
  qed
next
  assume b: "\<forall>(u, v) \<in> set (edges pattern). u \<in> P \<and> v \<in> P \<longrightarrow> has_edge host (f u) (f v)"
  show "\<forall>q \<in> P. \<forall>q' \<in> P. has_edge pattern q q' \<longrightarrow> has_edge host (f q) (f q')"
  proof (intro ballI impI)
    fix q q' assume q: "q \<in> P" "q' \<in> P" and e: "has_edge pattern q q'"
    from e consider "(q, q') \<in> set (edges pattern)" | "(q', q) \<in> set (edges pattern)"
      by (auto simp: has_edge_def)
    then show "has_edge host (f q) (f q')"
    proof cases
      case 1
      then show ?thesis using b q by blast
    next
      case 2
      then have "has_edge host (f q') (f q)" using b q by blast
      then show ?thesis using has_edge_sym by blast
    qed
  qed
qed

lemma fst_initial_todo: "map fst (initial_todo node_match host pattern) = node_idxs pattern"
  by (simp add: initial_todo_def comp_def)

lemma self_ok_initial_todo: "self_ok host pattern (initial_todo node_match host pattern)"
  by (auto simp: self_ok_def initial_todo_def candidates_def)

lemma completions_initial_todo:
  "completions host pattern (initial_todo node_match host pattern) []
     = {(\<lambda>q. (f q, q)) ` set (node_idxs pattern) | f.
          (\<forall>q \<in> set (node_idxs pattern). f q \<in> set (node_idxs host)) \<and>
          inj_on f (set (node_idxs pattern)) \<and>
          match_set node_match host pattern ((\<lambda>q. (f q, q)) ` set (node_idxs pattern))}"
proof -
  let ?P = "set (node_idxs pattern)"
  let ?todo = "initial_todo node_match host pattern"
  have fst: "fst ` set ?todo = ?P"
    using fst_initial_todo [of node_match host pattern] by (metis list.set_map)
  have cs: "(\<forall>(q, cs) \<in> set ?todo. f q \<in> set cs)
              \<longleftrightarrow> (\<forall>q \<in> ?P. f q \<in> set (candidates node_match host pattern q))" for f
    by (auto simp: initial_todo_def)
  have eq: "((\<forall>(q, cs) \<in> set ?todo. f q \<in> set cs) \<and> inj_on f (fst ` set ?todo) \<and>
            (\<forall>q \<in> fst ` set ?todo. \<forall>q' \<in> fst ` set ?todo.
               has_edge pattern q q' \<longrightarrow> has_edge host (f q) (f q')))
          \<longleftrightarrow> ((\<forall>q \<in> ?P. f q \<in> set (node_idxs host)) \<and> inj_on f ?P \<and>
               match_set node_match host pattern ((\<lambda>q. (f q, q)) ` ?P))" for f
  proof -
    define L where "L \<longleftrightarrow> (\<forall>q \<in> ?P. f q \<in> set (candidates node_match host pattern q))"
    define H where "H \<longleftrightarrow> (\<forall>q \<in> ?P. f q \<in> set (node_idxs host))"
    define C where "C \<longleftrightarrow> (\<forall>q \<in> ?P. compatible node_match host pattern (f q) q)"
    define S where "S \<longleftrightarrow> (\<forall>q \<in> ?P. has_edge pattern q q \<longrightarrow> has_edge host (f q) (f q))"
    define E where "E \<longleftrightarrow> (\<forall>q \<in> ?P. \<forall>q' \<in> ?P. has_edge pattern q q' \<longrightarrow> has_edge host (f q) (f q'))"
    define I where "I \<longleftrightarrow> inj_on f ?P"
    define M where "M \<longleftrightarrow> match_set node_match host pattern ((\<lambda>q. (f q, q)) ` ?P)"
    have 1: "L \<longleftrightarrow> H \<and> C \<and> S"
      unfolding L_def H_def C_def S_def by (auto simp: candidates_def)
    have 2: "E \<longrightarrow> S" unfolding E_def S_def by blast
    have 3: "M \<longleftrightarrow> C \<and> E"
      unfolding M_def C_def E_def match_set_image edge_conditions [symmetric] by simp
    have "(L \<and> I \<and> E) \<longleftrightarrow> (H \<and> I \<and> M)" using 1 2 3 by blast
    then show ?thesis
      unfolding L_def H_def I_def E_def M_def cs fst .
  qed
  show ?thesis
    unfolding completions_def eq by (simp add: fst)
qed

lemma find_all_subgraphs_sets:
  assumes "distinct (node_idxs pattern)"
  shows "set (map set (find_all_subgraphs node_match host pattern))
     = {(\<lambda>q. (f q, q)) ` set (node_idxs pattern) | f.
          (\<forall>q \<in> set (node_idxs pattern). f q \<in> set (node_idxs host)) \<and>
          inj_on f (set (node_idxs pattern)) \<and>
          match_set node_match host pattern ((\<lambda>q. (f q, q)) ` set (node_idxs pattern))}"
proof -
  let ?todo = "most_constrained_first (initial_todo node_match host pattern)"
  have "distinct (map fst ?todo)"
    using assms by (simp add: distinct_fst_most_constrained_first fst_initial_todo)
  moreover have "self_ok host pattern ?todo"
    using self_ok_initial_todo self_ok_cong_set [OF set_most_constrained_first] by blast
  ultimately have "set (map set (find_all_subgraphs node_match host pattern))
                     = completions host pattern ?todo []"
    unfolding find_all_subgraphs_def by (rule search_completions)
  also have "\<dots> = completions host pattern (initial_todo node_match host pattern) []"
    by (rule completions_cong_set [OF set_most_constrained_first])
  finally show ?thesis by (simp add: completions_initial_todo)
qed

lemma brute_force_sets:
  assumes "distinct (node_idxs pattern)"
  shows "set (map set (brute_force node_match host pattern))
     = {(\<lambda>q. (f q, q)) ` set (node_idxs pattern) | f.
          (\<forall>q \<in> set (node_idxs pattern). f q \<in> set (node_idxs host)) \<and>
          inj_on f (set (node_idxs pattern)) \<and>
          match_set node_match host pattern ((\<lambda>q. (f q, q)) ` set (node_idxs pattern))}"
proof -
  let ?as = "assignments (node_idxs pattern) (node_idxs host)"
  have "set (map set (brute_force node_match host pattern))
          = {S \<in> set (map set ?as). match_set node_match host pattern S}"
    by (auto simp: brute_force_def is_match_set)
  also have "\<dots> = {(\<lambda>q. (f q, q)) ` set (node_idxs pattern) | f.
          (\<forall>q \<in> set (node_idxs pattern). f q \<in> set (node_idxs host)) \<and>
          inj_on f (set (node_idxs pattern)) \<and>
          match_set node_match host pattern ((\<lambda>q. (f q, q)) ` set (node_idxs pattern))}"
    unfolding assignments_sets [OF assms] by auto
  finally show ?thesis .
qed

text \<open>
  C4. For every host graph, pattern graph (its node indices distinct, as the keys of a
  node dictionary are) and compatibility predicate, \<open>find_subgraphs\<close> with
  \<open>symmetry=False\<close> returns, as a set of mappings, exactly what the brute-force search
  returns: every injective mapping of the pattern nodes to host nodes under which every
  pattern edge maps to a host edge and the predicate holds on every mapped pair.
\<close>

theorem find_subgraphs_brute_force:
  assumes "distinct (node_idxs pattern)"
  shows "set (map set (find_subgraphs node_match host pattern False))
           = set (map set (brute_force node_match host pattern))"
proof -
  have "set (map set (find_all_subgraphs node_match host pattern))
          = set (map set (brute_force node_match host pattern))"
    unfolding find_all_subgraphs_sets [OF assms] brute_force_sets [OF assms] ..
  then show ?thesis by (simp add: find_subgraphs_def)
qed

theorem find_subgraphs_brute_force_witness:
  "set (map set (find_subgraphs (\<lambda>a b. True) triangle path3 False))
     = set (map set (brute_force (\<lambda>a b. True) triangle path3))
   \<and> length (brute_force (\<lambda>a b. True) triangle path3) = 6"
proof -
  have "distinct (node_idxs path3)" by (simp add: node_idxs_def path3_def)
  from find_subgraphs_brute_force [OF this, of "\<lambda>a b. True" triangle]
  have "set (map set (find_subgraphs (\<lambda>a b. True) triangle path3 False))
     = set (map set (brute_force (\<lambda>a b. True) triangle path3))" .
  moreover have "length (brute_force (\<lambda>a b. True) triangle path3) = 6"
    by code_simp
  ultimately show ?thesis by simp
qed

lemma find_all_subgraphs_valid:
  "distinct (node_idxs pattern)
     \<Longrightarrow> set ` set (find_all_subgraphs node_match host pattern) = valid_mappings node_match host pattern"
  using find_all_subgraphs_sets [of pattern node_match host] by (simp add: valid_mappings_def)

lemma set_compose: "set (compose m \<sigma>) = set m O set \<sigma>"
  by (force simp: compose_def relcomp_unfold)

lemma images_images_set: "images ps m = images_set ps (set m)"
proof -
  have "sort (remdups (map fst (filter (\<lambda>(h, q'). q' = q) m)))
          = sorted_list_of_set {h. (h, q) \<in> set m}" for q
  proof -
    have "set (map fst (filter (\<lambda>(h, q'). q' = q) m)) = {h. (h, q) \<in> set m}"
      by force
    then show ?thesis by (metis sorted_list_of_set_sort_remdups)
  qed
  then show ?thesis by (simp add: images_def images_set_def)
qed

lemma compatible_trans:
  "transp node_match \<Longrightarrow> compatible node_match A B x y \<Longrightarrow> compatible node_match B C y z
     \<Longrightarrow> compatible node_match A C x z"
  by (auto simp: compatible_def split: option.splits dest: transpD)

lemma compatible_sym:
  "symp node_match \<Longrightarrow> compatible node_match A A x y \<Longrightarrow> compatible node_match A A y x"
  by (auto simp: compatible_def split: option.splits dest: sympD)

lemma compatible_refl:
  assumes "reflp node_match" and "q \<in> set (node_idxs G)"
  shows "compatible node_match G G q q"
proof -
  have "q \<in> fst ` set (nodes G)" using assms(2) by (simp add: node_idxs_def)
  then obtain d where "map_of (nodes G) q = Some d"
    by (metis map_of_eq_None_iff not_Some_eq)
  then show ?thesis using assms(1) by (simp add: compatible_def reflpD)
qed

lemma valid_mappingsI:
  assumes "\<forall>q \<in> set (node_idxs pattern). f q \<in> set (node_idxs host)"
    and "inj_on f (set (node_idxs pattern))"
    and "\<forall>q \<in> set (node_idxs pattern). compatible node_match host pattern (f q) q"
    and "\<forall>q \<in> set (node_idxs pattern). \<forall>q' \<in> set (node_idxs pattern).
           has_edge pattern q q' \<longrightarrow> has_edge host (f q) (f q')"
  shows "(\<lambda>q. (f q, q)) ` set (node_idxs pattern) \<in> valid_mappings node_match host pattern"
proof -
  have "match_set node_match host pattern ((\<lambda>q. (f q, q)) ` set (node_idxs pattern))"
    unfolding match_set_image edge_conditions [symmetric] using assms(3,4) by blast
  then show ?thesis unfolding valid_mappings_def using assms(1,2) by blast
qed

lemma valid_mappingsE:
  assumes "M \<in> valid_mappings node_match host pattern"
  obtains f where "M = (\<lambda>q. (f q, q)) ` set (node_idxs pattern)"
    and "\<forall>q \<in> set (node_idxs pattern). f q \<in> set (node_idxs host)"
    and "inj_on f (set (node_idxs pattern))"
    and "\<forall>q \<in> set (node_idxs pattern). compatible node_match host pattern (f q) q"
    and "\<forall>q \<in> set (node_idxs pattern). \<forall>q' \<in> set (node_idxs pattern).
           has_edge pattern q q' \<longrightarrow> has_edge host (f q) (f q')"
proof -
  obtain f where f: "M = (\<lambda>q. (f q, q)) ` set (node_idxs pattern)"
    "\<forall>q \<in> set (node_idxs pattern). f q \<in> set (node_idxs host)"
    "inj_on f (set (node_idxs pattern))"
    "match_set node_match host pattern ((\<lambda>q. (f q, q)) ` set (node_idxs pattern))"
    using assms unfolding valid_mappings_def by blast
  have "(\<forall>q \<in> set (node_idxs pattern). compatible node_match host pattern (f q) q) \<and>
        (\<forall>q \<in> set (node_idxs pattern). \<forall>q' \<in> set (node_idxs pattern).
           has_edge pattern q q' \<longrightarrow> has_edge host (f q) (f q'))"
    using f(4) unfolding match_set_image edge_conditions [symmetric] .
  then show ?thesis using that f(1,2,3) by blast
qed

lemma img_comp:
  assumes "s ` P \<subseteq> P"
  shows "((\<lambda>q. (f q, q)) ` P) O ((\<lambda>q. (s q, q)) ` P) = (\<lambda>q. (f (s q), q)) ` P"
  using assms by (auto simp: relcomp_unfold image_iff)

lemma valid_mappings_comp:
  assumes t: "transp node_match"
    and M: "M \<in> valid_mappings node_match host pattern"
    and S: "S \<in> valid_mappings node_match pattern pattern"
  shows "M O S \<in> valid_mappings node_match host pattern"
proof -
  let ?P = "set (node_idxs pattern)"
  obtain f where f: "M = (\<lambda>q. (f q, q)) ` ?P"
    "\<forall>q \<in> ?P. f q \<in> set (node_idxs host)" "inj_on f ?P"
    "\<forall>q \<in> ?P. compatible node_match host pattern (f q) q"
    "\<forall>q \<in> ?P. \<forall>q' \<in> ?P. has_edge pattern q q' \<longrightarrow> has_edge host (f q) (f q')"
    using M by (rule valid_mappingsE)
  obtain s where s: "S = (\<lambda>q. (s q, q)) ` ?P"
    "\<forall>q \<in> ?P. s q \<in> ?P" "inj_on s ?P"
    "\<forall>q \<in> ?P. compatible node_match pattern pattern (s q) q"
    "\<forall>q \<in> ?P. \<forall>q' \<in> ?P. has_edge pattern q q' \<longrightarrow> has_edge pattern (s q) (s q')"
    using S by (rule valid_mappingsE)
  have sP: "s ` ?P \<subseteq> ?P" using s(2) by blast
  have eq: "M O S = (\<lambda>q. ((f \<circ> s) q, q)) ` ?P"
    unfolding f(1) s(1) using img_comp [OF sP] by simp
  have 1: "\<forall>q \<in> ?P. (f \<circ> s) q \<in> set (node_idxs host)" using f(2) s(2) by simp
  have 2: "inj_on (f \<circ> s) ?P"
    using s(3) f(3) sP by (meson comp_inj_on inj_on_subset)
  have 3: "\<forall>q \<in> ?P. compatible node_match host pattern ((f \<circ> s) q) q"
  proof
    fix q assume q: "q \<in> ?P"
    then have "compatible node_match host pattern (f (s q)) (s q)" using f(4) s(2) by blast
    moreover have "compatible node_match pattern pattern (s q) q" using s(4) q by blast
    ultimately show "compatible node_match host pattern ((f \<circ> s) q) q"
      using compatible_trans [OF t] by fastforce
  qed
  have 4: "\<forall>q \<in> ?P. \<forall>q' \<in> ?P. has_edge pattern q q' \<longrightarrow> has_edge host ((f \<circ> s) q) ((f \<circ> s) q')"
  proof (intro ballI impI)
    fix q q' assume q: "q \<in> ?P" "q' \<in> ?P" and e: "has_edge pattern q q'"
    then have "has_edge pattern (s q) (s q')" using s(5) by blast
    moreover have "s q \<in> ?P" "s q' \<in> ?P" using s(2) q by blast+
    ultimately show "has_edge host ((f \<circ> s) q) ((f \<circ> s) q')" using f(5) by simp
  qed
  show ?thesis unfolding eq by (rule valid_mappingsI [OF 1 2 3 4])
qed

lemma valid_mappings_Id:
  assumes "reflp node_match"
  shows "Id_on (set (node_idxs pattern)) \<in> valid_mappings node_match pattern pattern"
proof -
  let ?P = "set (node_idxs pattern)"
  have "(\<lambda>q. (id q, q)) ` ?P \<in> valid_mappings node_match pattern pattern"
    by (rule valid_mappingsI) (auto simp: compatible_refl [OF assms])
  moreover have "(\<lambda>q. (id q, q)) ` ?P = Id_on ?P" by auto
  ultimately show ?thesis by simp
qed

lemma valid_mappings_snd:
  assumes "M \<in> valid_mappings node_match host pattern"
  shows "snd ` M \<subseteq> set (node_idxs pattern)"
  using assms unfolding valid_mappings_def by auto

lemma valid_mappings_fst_self:
  assumes "S \<in> valid_mappings node_match pattern pattern"
  shows "fst ` S \<subseteq> set (node_idxs pattern)"
  using assms unfolding valid_mappings_def by auto

lemma comp_Id_on_right: "snd ` M \<subseteq> P \<Longrightarrow> M O Id_on P = M"
  by (auto simp: relcomp_unfold) force

lemma comp_Id_on_left: "fst ` S \<subseteq> P \<Longrightarrow> Id_on P O S = S"
  by (auto simp: relcomp_unfold) force

text \<open>An injective edge-preserving map of a finite graph into itself reflects edges.\<close>

lemma edges_reflected:
  assumes fin: "finite P"
    and sP: "\<forall>q \<in> P. s q \<in> P"
    and inj: "inj_on s P"
    and pres: "\<forall>q \<in> P. \<forall>q' \<in> P. has_edge G q q' \<longrightarrow> has_edge G (s q) (s q')"
    and a: "a \<in> P" and b: "b \<in> P"
    and e: "has_edge G (s a) (s b)"
  shows "has_edge G a b"
proof -
  let ?E = "{(q, q'). q \<in> P \<and> q' \<in> P \<and> has_edge G q q'}"
  let ?\<phi> = "\<lambda>(q, q'). (s q, s q')"
  have "?E \<subseteq> P \<times> P" by blast
  then have finE: "finite ?E" using fin by (meson finite_SigmaI finite_subset)
  have sub: "?\<phi> ` ?E \<subseteq> ?E" using sP pres by auto
  have injE: "inj_on ?\<phi> ?E" using inj by (auto simp: inj_on_def)
  have "?\<phi> ` ?E = ?E" using finE sub injE by (rule endo_inj_surj)
  moreover have "(s a, s b) \<in> ?E" using a b e sP by blast
  ultimately have "(s a, s b) \<in> ?\<phi> ` ?E" by simp
  then obtain q q' where q: "q \<in> P" "q' \<in> P" "has_edge G q q'" "s q = s a" "s q' = s b"
    by auto
  then have "q = a" "q' = b" using inj a b by (auto simp: inj_on_def)
  then show ?thesis using q(3) by simp
qed

lemma valid_mappings_converse:
  assumes sym: "symp node_match"
    and S: "S \<in> valid_mappings node_match pattern pattern"
  shows "S\<inverse> \<in> valid_mappings node_match pattern pattern"
    and "S O S\<inverse> = Id_on (set (node_idxs pattern))"
proof -
  let ?P = "set (node_idxs pattern)"
  obtain s where s: "S = (\<lambda>q. (s q, q)) ` ?P"
    "\<forall>q \<in> ?P. s q \<in> ?P" "inj_on s ?P"
    "\<forall>q \<in> ?P. compatible node_match pattern pattern (s q) q"
    "\<forall>q \<in> ?P. \<forall>q' \<in> ?P. has_edge pattern q q' \<longrightarrow> has_edge pattern (s q) (s q')"
    using S by (rule valid_mappingsE)
  have fin: "finite ?P" by simp
  have sub: "s ` ?P \<subseteq> ?P" using s(2) by blast
  have surj: "s ` ?P = ?P" using fin sub s(3) by (rule endo_inj_surj)
  define t where "t = the_inv_into ?P s"
  have ts: "t (s q) = q" if "q \<in> ?P" for q
    unfolding t_def using s(3) that by (rule the_inv_into_f_f)
  have st1: "s (t r) = r" if "r \<in> ?P" for r
  proof -
    have "r \<in> s ` ?P" using that surj by simp
    then show ?thesis unfolding t_def using s(3) by (simp add: f_the_inv_into_f)
  qed
  have st2: "t r \<in> ?P" if "r \<in> ?P" for r
  proof -
    have "r \<in> s ` ?P" using that surj by simp
    then obtain q where "q \<in> ?P" "r = s q" by blast
    then show ?thesis using ts by simp
  qed
  note st = st1 st2
  have conv: "S\<inverse> = (\<lambda>r. (t r, r)) ` ?P"
  proof (intro equalityI subsetI)
    fix x assume "x \<in> S\<inverse>"
    then obtain q where q: "q \<in> ?P" "x = (q, s q)" unfolding s(1) by auto
    then have "x = (t (s q), s q)" using ts by simp
    moreover have "s q \<in> ?P" using q s(2) by blast
    ultimately show "x \<in> (\<lambda>r. (t r, r)) ` ?P" by blast
  next
    fix x assume "x \<in> (\<lambda>r. (t r, r)) ` ?P"
    then obtain r where r: "r \<in> ?P" "x = (t r, r)" by auto
    then have "(r, t r) \<in> S" unfolding s(1) using st [OF r(1)] by force
    then show "x \<in> S\<inverse>" using r(2) by simp
  qed
  have 1: "\<forall>r \<in> ?P. t r \<in> ?P" using st by blast
  have 2: "inj_on t ?P"
  proof (rule inj_onI)
    fix x y assume "x \<in> ?P" "y \<in> ?P" "t x = t y"
    then show "x = y" using st1 [of x] st1 [of y] by metis
  qed
  have 3: "\<forall>r \<in> ?P. compatible node_match pattern pattern (t r) r"
  proof
    fix r assume r: "r \<in> ?P"
    then have "compatible node_match pattern pattern (s (t r)) (t r)" using s(4) st(2) by blast
    then have "compatible node_match pattern pattern r (t r)" using st(1) r by simp
    then show "compatible node_match pattern pattern (t r) r" by (rule compatible_sym [OF sym])
  qed
  have 4: "\<forall>r \<in> ?P. \<forall>r' \<in> ?P. has_edge pattern r r' \<longrightarrow> has_edge pattern (t r) (t r')"
  proof (intro ballI impI)
    fix r r' assume r: "r \<in> ?P" "r' \<in> ?P" and e: "has_edge pattern r r'"
    have "has_edge pattern (s (t r)) (s (t r'))" using e st(1) r by simp
    then show "has_edge pattern (t r) (t r')"
      using edges_reflected [OF fin s(2) s(3) s(5)] st(2) r by blast
  qed
  show "S\<inverse> \<in> valid_mappings node_match pattern pattern"
    unfolding conv by (rule valid_mappingsI [OF 1 2 3 4])
  show "S O S\<inverse> = Id_on ?P"
  proof (intro equalityI subsetI)
    fix x assume "x \<in> S O S\<inverse>"
    then obtain a b c where x: "x = (a, c)" "(a, b) \<in> S" "(c, b) \<in> S" by auto
    then have "a = s b" "c = s b" "b \<in> ?P" unfolding s(1) by auto
    then show "x \<in> Id_on ?P" using x(1) s(2) by auto
  next
    fix x assume "x \<in> Id_on ?P"
    then obtain r where r: "r \<in> ?P" "x = (r, r)" by auto
    then have "(r, t r) \<in> S" unfolding s(1) using st [OF r(1)] by force
    then show "x \<in> S O S\<inverse>" using r(2) by auto
  qed
qed

lemma images_set_valid:
  assumes "M \<in> valid_mappings node_match host pattern"
    and "M' \<in> valid_mappings node_match host pattern"
    and "images_set (node_idxs pattern) M = images_set (node_idxs pattern) M'"
  shows "M = M'"
proof -
  let ?P = "set (node_idxs pattern)"
  obtain f where f: "M = (\<lambda>q. (f q, q)) ` ?P" using assms(1) by (rule valid_mappingsE)
  obtain g where g: "M' = (\<lambda>q. (g q, q)) ` ?P" using assms(2) by (rule valid_mappingsE)
  have fg: "f q = g q" if q: "q \<in> ?P" for q
  proof -
    have "{h. (h, q) \<in> M} = {f q}" "{h. (h, q) \<in> M'} = {g q}"
      using q by (auto simp: f g)
    moreover have "sorted_list_of_set {h. (h, q) \<in> M} = sorted_list_of_set {h. (h, q) \<in> M'}"
      using assms(3) q by (simp add: images_set_def)
    ultimately show ?thesis by simp
  qed
  have "(\<lambda>q. (f q, q)) ` ?P = (\<lambda>q. (g q, q)) ` ?P"
  proof (rule image_cong)
    show "?P = ?P" ..
  next
    fix q assume "q \<in> ?P"
    then show "(f q, q) = (g q, q)" using fg by simp
  qed
  then show ?thesis unfolding f g .
qed

lemma finite_valid_mappings:
  assumes "distinct (node_idxs pattern)"
  shows "finite (valid_mappings node_match host pattern)"
  using find_all_subgraphs_valid [OF assms, of node_match host] by (metis List.finite_set finite_imageI)

lemma automorphisms_valid:
  "distinct (node_idxs pattern)
     \<Longrightarrow> set ` set (automorphisms node_match pattern) = valid_mappings node_match pattern pattern"
  unfolding automorphisms_def by (rule find_all_subgraphs_valid)

lemma canonical_canonical_set:
  assumes "distinct (node_idxs pattern)"
  shows "canonical node_match pattern m = canonical_set node_match pattern (set m)"
proof -
  have "canonical node_match pattern m \<longleftrightarrow>
          (\<forall>\<sigma> \<in> set (automorphisms node_match pattern).
             images_set (node_idxs pattern) (set m) \<le> images_set (node_idxs pattern) (set m O set \<sigma>))"
    by (simp add: canonical_def list_all_iff images_images_set set_compose)
  also have "\<dots> \<longleftrightarrow>
          (\<forall>S \<in> set ` set (automorphisms node_match pattern).
             images_set (node_idxs pattern) (set m) \<le> images_set (node_idxs pattern) (set m O S))"
    by blast
  finally show ?thesis
    unfolding automorphisms_valid [OF assms] canonical_set_def .
qed

lemma equivalent_valid:
  assumes "distinct (node_idxs pattern)"
  shows "equivalent node_match pattern M M' \<longleftrightarrow>
           (\<exists>S \<in> valid_mappings node_match pattern pattern. M' = M O S)"
proof -
  have "equivalent node_match pattern M M' \<longleftrightarrow>
           (\<exists>S \<in> set ` set (automorphisms node_match pattern). M' = M O S)"
    unfolding equivalent_def by blast
  then show ?thesis unfolding automorphisms_valid [OF assms] .
qed

text \<open>Every class of valid mappings holds a canonical mapping.\<close>

lemma canonical_exists:
  assumes d: "distinct (node_idxs pattern)"
    and eq: "equivp node_match"
    and M: "M \<in> valid_mappings node_match host pattern"
  shows "\<exists>M' \<in> valid_mappings node_match host pattern.
           canonical_set node_match pattern M' \<and>
           (\<exists>S \<in> valid_mappings node_match pattern pattern. M' = M O S)"
proof -
  let ?A = "valid_mappings node_match pattern pattern"
  let ?P = "set (node_idxs pattern)"
  let ?img = "images_set (node_idxs pattern)"
  have t: "transp node_match" and r: "reflp node_match"
    using eq by (auto elim: equivpE)
  let ?C = "(\<lambda>S. M O S) ` ?A"
  have "finite ?A" using d by (rule finite_valid_mappings)
  then have finC: "finite ?C" by (rule finite_imageI)
  have "Id_on ?P \<in> ?A" using valid_mappings_Id [OF r] .
  then have neC: "?C \<noteq> {}" by blast
  define M' where "M' = arg_min_on ?img ?C"
  have M'C: "M' \<in> ?C" unfolding M'_def using finC neC by (rule arg_min_if_finite)
  have least: "?img M' \<le> ?img N" if "N \<in> ?C" for N
    unfolding M'_def using finC neC that by (rule arg_min_least)
  obtain S0 where S0: "S0 \<in> ?A" "M' = M O S0" using M'C by blast
  have valid: "M' \<in> valid_mappings node_match host pattern"
    unfolding S0(2) using valid_mappings_comp [OF t M S0(1)] .
  have "canonical_set node_match pattern M'"
    unfolding canonical_set_def
  proof
    fix S assume S: "S \<in> ?A"
    have "S0 O S \<in> ?A" using valid_mappings_comp [OF t S0(1) S] .
    then have "M O (S0 O S) \<in> ?C" by blast
    then have "M' O S \<in> ?C" unfolding S0(2) by (simp add: O_assoc)
    then show "?img M' \<le> ?img (M' O S)" by (rule least)
  qed
  then show ?thesis using valid S0 by blast
qed

text \<open>Two canonical mappings of one class are equal.\<close>

lemma canonical_unique:
  assumes d: "distinct (node_idxs pattern)"
    and eq: "equivp node_match"
    and M: "M \<in> valid_mappings node_match host pattern"
    and M1: "M1 \<in> valid_mappings node_match host pattern" "canonical_set node_match pattern M1"
      "S1 \<in> valid_mappings node_match pattern pattern" "M1 = M O S1"
    and M2: "M2 \<in> valid_mappings node_match host pattern" "canonical_set node_match pattern M2"
      "S2 \<in> valid_mappings node_match pattern pattern" "M2 = M O S2"
  shows "M1 = M2"
proof -
  let ?A = "valid_mappings node_match pattern pattern"
  let ?P = "set (node_idxs pattern)"
  let ?img = "images_set (node_idxs pattern)"
  have t: "transp node_match" and s: "symp node_match"
    using eq by (auto elim: equivpE)
  have MId: "M O Id_on ?P = M"
    using comp_Id_on_right [OF valid_mappings_snd [OF M]] .
  have le: "?img N1 \<le> ?img N2"
    if N1: "canonical_set node_match pattern N1" "T1 \<in> ?A" "N1 = M O T1"
      and N2: "T2 \<in> ?A" "N2 = M O T2" for N1 N2 T1 T2
  proof -
    have inv: "T1\<inverse> \<in> ?A" "T1 O T1\<inverse> = Id_on ?P"
      using valid_mappings_converse [OF s N1(2)] by simp_all
    have "T1\<inverse> O T2 \<in> ?A" using valid_mappings_comp [OF t inv(1) N2(1)] .
    moreover have "N1 O (T1\<inverse> O T2) = N2"
    proof -
      have "N1 O (T1\<inverse> O T2) = M O (T1 O T1\<inverse>) O T2"
        unfolding N1(3) by (simp add: O_assoc)
      also have "\<dots> = M O T2" unfolding inv(2) using MId by (simp add: O_assoc [symmetric])
      finally show ?thesis using N2(2) by simp
    qed
    ultimately show ?thesis using N1(1) unfolding canonical_set_def by blast
  qed
  have "?img M1 \<le> ?img M2" using le [OF M1(2,3,4) M2(3,4)] .
  moreover have "?img M2 \<le> ?img M1" using le [OF M2(2,3,4) M1(3,4)] .
  ultimately have "?img M1 = ?img M2" by simp
  then show ?thesis using images_set_valid [OF M1(1) M2(1)] by blast
qed

lemma find_subgraphs_True_sets:
  assumes "distinct (node_idxs pattern)"
  shows "set ` set (find_subgraphs node_match host pattern True)
           = {M \<in> valid_mappings node_match host pattern. canonical_set node_match pattern M}"
proof -
  have "set ` set (find_subgraphs node_match host pattern True)
          = {M \<in> set ` set (find_all_subgraphs node_match host pattern).
               canonical_set node_match pattern M}"
    by (auto simp: find_subgraphs_def canonical_canonical_set [OF assms])
  then show ?thesis unfolding find_all_subgraphs_valid [OF assms] .
qed

lemma find_subgraphs_False_sets:
  assumes "distinct (node_idxs pattern)"
  shows "set ` set (find_subgraphs node_match host pattern False)
           = valid_mappings node_match host pattern"
  using find_all_subgraphs_valid [OF assms] by (simp add: find_subgraphs_def)

lemma representative_unique:
  assumes d: "distinct (node_idxs pattern)"
    and eq: "equivp node_match"
    and M: "M \<in> valid_mappings node_match host pattern"
  shows "\<exists>!M'. M' \<in> set ` set (find_subgraphs node_match host pattern True)
               \<and> equivalent node_match pattern M M'"
proof -
  let ?R = "{M \<in> valid_mappings node_match host pattern. canonical_set node_match pattern M}"
  have R: "set ` set (find_subgraphs node_match host pattern True) = ?R"
    using d by (rule find_subgraphs_True_sets)
  obtain M' where M': "M' \<in> valid_mappings node_match host pattern"
    "canonical_set node_match pattern M'"
    "\<exists>S \<in> valid_mappings node_match pattern pattern. M' = M O S"
    using canonical_exists [OF d eq M] by blast
  show ?thesis
  proof (rule ex1I [of _ M'])
    show "M' \<in> set ` set (find_subgraphs node_match host pattern True)
            \<and> equivalent node_match pattern M M'"
      unfolding R equivalent_valid [OF d] using M' by blast
  next
    fix N assume N: "N \<in> set ` set (find_subgraphs node_match host pattern True)
            \<and> equivalent node_match pattern M N"
    then have N1: "N \<in> valid_mappings node_match host pattern" "canonical_set node_match pattern N"
      unfolding R by blast+
    obtain S1 where S1: "S1 \<in> valid_mappings node_match pattern pattern" "N = M O S1"
      using N unfolding equivalent_valid [OF d] by blast
    obtain S2 where S2: "S2 \<in> valid_mappings node_match pattern pattern" "M' = M O S2"
      using M'(3) by blast
    show "N = M'"
      using canonical_unique [OF d eq M N1 S1 M'(1,2) S2] .
  qed
qed

lemma self_match_unique:
  assumes d: "distinct (node_idxs pattern)"
    and eq: "equivp node_match"
  shows "card (set ` set (find_subgraphs node_match pattern pattern True)) = 1"
proof -
  let ?A = "valid_mappings node_match pattern pattern"
  let ?P = "set (node_idxs pattern)"
  define R where "R = set ` set (find_subgraphs node_match pattern pattern True)"
  define E where "E = equivalent node_match pattern (Id_on ?P)"
  have R: "R = {M \<in> ?A. canonical_set node_match pattern M}"
    unfolding R_def using d by (rule find_subgraphs_True_sets)
  have r: "reflp node_match" using eq by (auto elim: equivpE)
  have Id: "Id_on ?P \<in> ?A" using valid_mappings_Id [OF r] .
  have "\<exists>!M'. M' \<in> R \<and> E M'"
    unfolding R_def E_def using representative_unique [OF d eq Id] .
  then obtain M0 where M0: "M0 \<in> R" "E M0"
    and uniq: "\<And>N. N \<in> R \<Longrightarrow> E N \<Longrightarrow> N = M0"
    by blast
  have "N = M0" if N: "N \<in> R" for N
  proof -
    have NA: "N \<in> ?A" using N unfolding R by blast
    have "Id_on ?P O N = N"
      using comp_Id_on_left [OF valid_mappings_fst_self [OF NA]] .
    then have "\<exists>S \<in> ?A. N = Id_on ?P O S" using NA by metis
    then have "E N" unfolding E_def equivalent_valid [OF d] .
    then show ?thesis using uniq N by blast
  qed
  then have "R = {M0}" using M0(1) by blast
  then show ?thesis unfolding R_def by simp
qed

text \<open>
  C5 fails as stated: with a predicate that never holds no mapping is valid, and matching
  a graph against itself yields no mapping instead of one. What holds (C5 amended): for a
  compatibility predicate that is an equivalence relation on the node attributes (and a
  pattern whose node indices are distinct), the result of \<open>find_subgraphs\<close> with
  \<open>symmetry=True\<close> is a subset of the result with \<open>symmetry=False\<close>; every mapping of
  the unreduced result is equivalent, under the automorphisms of the pattern, to exactly
  one mapping of the reduced result; and matching a graph against itself with
  \<open>symmetry=True\<close> yields exactly one mapping.
\<close>

theorem find_subgraphs_symmetry:
  assumes "distinct (node_idxs pattern)" and "equivp node_match"
  shows "set (find_subgraphs node_match host pattern True)
           \<subseteq> set (find_subgraphs node_match host pattern False)
         \<and> (\<forall>m \<in> set (find_subgraphs node_match host pattern False).
               \<exists>!M. M \<in> set ` set (find_subgraphs node_match host pattern True)
                    \<and> equivalent node_match pattern (set m) M)
         \<and> card (set ` set (find_subgraphs node_match pattern pattern True)) = 1"
proof (intro conjI ballI)
  show "set (find_subgraphs node_match host pattern True)
           \<subseteq> set (find_subgraphs node_match host pattern False)"
    by (auto simp: find_subgraphs_def)
next
  fix m assume "m \<in> set (find_subgraphs node_match host pattern False)"
  then have "set m \<in> valid_mappings node_match host pattern"
    using find_subgraphs_False_sets [OF assms(1), of node_match host] by blast
  then show "\<exists>!M. M \<in> set ` set (find_subgraphs node_match host pattern True)
                    \<and> equivalent node_match pattern (set m) M"
    by (rule representative_unique [OF assms])
next
  show "card (set ` set (find_subgraphs node_match pattern pattern True)) = 1"
    using assms by (rule self_match_unique)
qed

lemma equivp_True: "equivp (\<lambda>a b. True)"
  by (auto intro!: equivpI reflpI sympI transpI)

theorem find_subgraphs_symmetry_witness:
  "card (set ` set (find_subgraphs (\<lambda>a b. True) square square True)) = 1
   \<and> set (find_subgraphs (\<lambda>a b. True) triangle path3 True)
       \<subseteq> set (find_subgraphs (\<lambda>a b. True) triangle path3 False)"
proof -
  have 1: "distinct (node_idxs square)" by (simp add: node_idxs_def square_def)
  have 2: "distinct (node_idxs path3)" by (simp add: node_idxs_def path3_def)
  show ?thesis
    using find_subgraphs_symmetry [OF 1 equivp_True, of square]
      find_subgraphs_symmetry [OF 2 equivp_True, of triangle]
    by blast
qed

theorem find_subgraphs_symmetry_counterexample:
  "find_subgraphs (\<lambda>a b. False) path3 path3 True = []
   \<and> find_subgraphs (\<lambda>a b. False) path3 path3 False = []"
  by code_simp

lemma path3_self_match:
  "find_subgraphs (\<lambda>a b. True) path3 path3 True = [[(7, 7), (6, 6), (5, 5)]]
   \<and> length (find_subgraphs (\<lambda>a b. True) path3 path3 False) = 2"
  by code_simp

end
